theory Spec2Isabelle
  imports Main
begin

section \<open>The multicast channel: rxjs \<open>ReplaySubject\<close> with buffer size 1\<close>

text \<open>
  \<open>local-cache.manager.ts\<close> creates every channel as \<open>new ReplaySubject<T>(1)\<close> and uses
  four members of it: \<open>next\<close>, \<open>error\<close>, \<open>observed\<close> and (through \<open>asObservable()\<close>)
  \<open>subscribe\<close>. The class belongs to the rxjs library that line 1 imports. The definitions
  below follow the behaviour of that class (rxjs 7, no window time): a buffer trimmed to
  the last value, a stopped flag, the thrown error and the list of current observers.
  A subscriber is a natural number; what a call delivers is returned as a list of
  (subscriber, notification) pairs, in delivery order. As the library documents, a
  \<open>ReplaySubject\<close> replays its buffered values to a new subscriber even after it has
  observed an error, and a stopped subject ignores further calls of \<open>next\<close> and \<open>error\<close>.
\<close>

datatype ('v, 'e) notification = NextN 'v | ErrorN 'e | CompleteN

record ('v, 'e) ReplaySubject =
  buffer :: "'v list"
  isStopped :: bool
  thrownError :: "'e option"
  observers :: "nat list"

definition new_ReplaySubject :: "('v, 'e) ReplaySubject" where
  "new_ReplaySubject = \<lparr>buffer = [], isStopped = False, thrownError = None, observers = []\<rparr>"

text \<open>\<open>hasError\<close> is set together with \<open>thrownError\<close> and never cleared.\<close>

definition hasError :: "('v, 'e) ReplaySubject \<Rightarrow> bool" where
  "hasError r = (thrownError r \<noteq> None)"

text \<open>\<open>_trimBuffer\<close> for buffer size 1: only the newest value is kept.\<close>

definition trimBuffer :: "('v, 'e) ReplaySubject \<Rightarrow> ('v, 'e) ReplaySubject" where
  "trimBuffer r =
     (if 1 < length (buffer r) then r\<lparr>buffer := drop (length (buffer r) - 1) (buffer r)\<rparr>
      else r)"

text \<open>\<open>next(value)\<close>: a stopped subject neither buffers nor delivers.\<close>

definition next_RS ::
  "'v \<Rightarrow> ('v, 'e) ReplaySubject \<Rightarrow> ('v, 'e) ReplaySubject \<times> (nat \<times> ('v, 'e) notification) list"
where
  "next_RS v r =
     (let r1 = (if \<not> isStopped r then r\<lparr>buffer := buffer r @ [v]\<rparr> else r);
          r2 = trimBuffer r1
      in (r2, if \<not> isStopped r2 then map (\<lambda>ob. (ob, NextN v)) (observers r2) else []))"

text \<open>\<open>error(err)\<close>: the first call stops the subject, notifies and drops every observer;
  later calls do nothing.\<close>

definition error_RS ::
  "'e \<Rightarrow> ('v, 'e) ReplaySubject \<Rightarrow> ('v, 'e) ReplaySubject \<times> (nat \<times> ('v, 'e) notification) list"
where
  "error_RS e r =
     (if \<not> isStopped r
      then (r\<lparr>isStopped := True, thrownError := Some e, observers := []\<rparr>,
            map (\<lambda>ob. (ob, ErrorN e)) (observers r))
      else (r, []))"

text \<open>\<open>observed\<close>: the subject has at least one observer.\<close>

definition observed :: "('v, 'e) ReplaySubject \<Rightarrow> bool" where
  "observed r = (observers r \<noteq> [])"

text \<open>\<open>subscribe\<close>: a live subject registers the subscriber; in every case the buffer is
  replayed first and the final status (error or completion) is delivered after it.\<close>

definition subscribe_RS ::
  "nat \<Rightarrow> ('v, 'e) ReplaySubject \<Rightarrow> ('v, 'e) ReplaySubject \<times> (nat \<times> ('v, 'e) notification) list"
where
  "subscribe_RS sid r =
     (let r1 = trimBuffer r;
          r2 = (if hasError r1 \<or> isStopped r1 then r1
                else r1\<lparr>observers := observers r1 @ [sid]\<rparr>)
      in (r2,
          map (\<lambda>v. (sid, NextN v)) (buffer r2) @
          (case thrownError r2 of
             Some e \<Rightarrow> [(sid, ErrorN e)]
           | None \<Rightarrow> if isStopped r2 then [(sid, CompleteN)] else [])))"

text \<open>Unsubscribing removes the first occurrence of the subscriber from the observers.\<close>

definition unsubscribe_RS :: "nat \<Rightarrow> ('v, 'e) ReplaySubject \<Rightarrow> ('v, 'e) ReplaySubject" where
  "unsubscribe_RS sid r = r\<lparr>observers := remove1 sid (observers r)\<rparr>"

section \<open>Data of \<open>local-cache.manager.ts\<close>\<close>

text \<open>The \<open>Cache\<close> interface (lines 7-17). The field \<open>context\<close> is named \<open>callContext\<close>
  here. The subject is kept inside the entry: the field is read-only and each entry owns
  exactly one subject.\<close>

record ('k, 'a, 'c, 'v, 'e) Cache =
  key :: 'k
  lastArgs :: 'a
  callContext :: 'c
  subject :: "('v, 'e) ReplaySubject"
  initialized :: bool

text \<open>The record kept by the durable store, with the fields the manager writes
  (lines 90-94) and reads (line 82). Times are milliseconds, as integers.\<close>

record 'v CacheData =
  data :: 'v
  maxAgeMS :: int
  createdAt :: int

text \<open>Modelled from the spec: \<open>isCacheOutdated\<close> is imported from
  \<open>../interface/cache-storage.interface\<close>, which is not among the sources. The spec says:
  a record is outdated when \<open>now >= createdAt + maxAge\<close>.\<close>

definition isCacheOutdated :: "'v CacheData \<Rightarrow> int \<Rightarrow> bool" where
  "isCacheOutdated cacheData nowTs = (createdAt cacheData + maxAgeMS cacheData \<le> nowTs)"

text \<open>
  The constructor's parameters (lines 22-28). The collaborators are arbitrary: each is a
  function of an external world \<open>'w\<close> that returns its settled result and the new world;
  a rejected promise, an erroring or empty observable and a thrown exception are \<open>Inl\<close>.
  \<open>truthy\<close> is JavaScript's boolean reading of a cache key, used by line 44; the type
  \<open>CacheKey\<close> is declared outside the sources, so it is a parameter. When several
  refreshes are in flight at once (line 48), the order in which their promises settle is
  decided by the collaborators, not by the manager: \<open>settleOrder\<close> is that order, as
  positions in the list of started refreshes.
\<close>

record ('k, 'a, 'c, 'v, 'e, 'w) Deps =
  getAsync :: "'w \<Rightarrow> 'k \<Rightarrow> ('e + 'v CacheData option) \<times> 'w"
  storeAsync :: "'w \<Rightarrow> 'k \<Rightarrow> 'v CacheData \<Rightarrow> ('e + unit) \<times> 'w"
  removeAsync :: "'w \<Rightarrow> 'k list \<Rightarrow> ('e + unit) \<times> 'w"
  dataProvider :: "'w \<Rightarrow> 'c \<Rightarrow> 'a \<Rightarrow> ('e + 'v) \<times> 'w"
  now :: "'w \<Rightarrow> int \<times> 'w"
  maxAgeInMS :: int
  truthy :: "'k \<Rightarrow> bool"
  settleOrder :: "'w \<Rightarrow> nat list"

text \<open>What the manager does to the outside, in the order it does it.\<close>

datatype ('k, 'a, 'c, 'v, 'e) event =
    StorageGet 'k
  | StorageStore 'k "'v CacheData"
  | StorageRemove "'k list"
  | ProducerCall 'c 'a
  | SubjectNext nat 'v
  | SubjectError nat 'e
  | Deliver nat "('v, 'e) notification"

text \<open>
  The manager's state. \<open>cacheStore\<close> is the JavaScript \<open>Map\<close> (keys in insertion order)
  from keys to entry objects; the objects live in \<open>heap\<close>, addressed by numbers below
  \<open>nextAddr\<close>, because an observable handed to a caller and a pending staleness check
  keep their entry after the map has dropped it.
\<close>

record ('k, 'a, 'c, 'v, 'e, 'w) LocalCacheManager =
  cacheStore :: "('k \<times> nat) list"
  heap :: "nat \<Rightarrow> ('k, 'a, 'c, 'v, 'e) Cache"
  nextAddr :: nat
  nextSubscriber :: nat
  world :: 'w
  trace :: "('k, 'a, 'c, 'v, 'e) event list"

definition new_LocalCacheManager ::
  "('k, 'a, 'c, 'v, 'e) Cache \<Rightarrow> 'w \<Rightarrow> ('k, 'a, 'c, 'v, 'e, 'w) LocalCacheManager"
where
  "new_LocalCacheManager c0 w =
     \<lparr>cacheStore = [], heap = (\<lambda>_. c0), nextAddr = 0, nextSubscriber = 0,
      world = w, trace = []\<rparr>"

text \<open>\<open>Map.delete\<close> on the association list.\<close>

definition store_delete :: "'k \<Rightarrow> ('k \<times> nat) list \<Rightarrow> ('k \<times> nat) list" where
  "store_delete k st = filter (\<lambda>(k', _). k' \<noteq> k) st"

section \<open>The methods of \<open>LocalCacheManager\<close>\<close>

text \<open>\<open>_setCacheData\<close> (lines 112-116).\<close>

definition setCacheData ::
  "nat \<Rightarrow> 'v \<Rightarrow> ('k, 'a, 'c, 'v, 'e, 'w) LocalCacheManager
     \<Rightarrow> ('k, 'a, 'c, 'v, 'e, 'w) LocalCacheManager"
where
  "setCacheData a d s =
     (let c = heap s a;
          (subj, dl) = next_RS d (subject c)
      in s\<lparr>heap := (heap s)(a := c\<lparr>subject := subj, initialized := True\<rparr>),
           trace := trace s @ SubjectNext a d # map (\<lambda>(sid, n). Deliver sid n) dl\<rparr>)"

text \<open>\<open>cache.subject.error(e)\<close> (line 98).\<close>

definition subjectError ::
  "nat \<Rightarrow> 'e \<Rightarrow> ('k, 'a, 'c, 'v, 'e, 'w) LocalCacheManager
     \<Rightarrow> ('k, 'a, 'c, 'v, 'e, 'w) LocalCacheManager"
where
  "subjectError a e s =
     (let c = heap s a;
          (subj, dl) = error_RS e (subject c)
      in s\<lparr>heap := (heap s)(a := c\<lparr>subject := subj\<rparr>),
           trace := trace s @ SubjectError a e # map (\<lambda>(sid, n). Deliver sid n) dl\<rparr>)"

text \<open>\<open>_refreshCacheData\<close> (lines 86-100). Each \<open>await\<close> is the call returning its
  settled result; the \<open>catch\<close> covers the producer and the store alike.\<close>

definition refreshCacheData ::
  "('k, 'a, 'c, 'v, 'e, 'w) Deps \<Rightarrow> nat \<Rightarrow> ('k, 'a, 'c, 'v, 'e, 'w) LocalCacheManager
     \<Rightarrow> ('k, 'a, 'c, 'v, 'e, 'w) LocalCacheManager"
where
  "refreshCacheData d a s =
     (let c = heap s a;
          (r, w1) = dataProvider d (world s) (callContext c) (lastArgs c);
          s1 = s\<lparr>world := w1, trace := trace s @ [ProducerCall (callContext c) (lastArgs c)]\<rparr>
      in case r of
           Inl e \<Rightarrow> subjectError a e s1
         | Inr v \<Rightarrow>
             (let (t, w2) = now d w1;
                  cd = \<lparr>data = v, maxAgeMS = maxAgeInMS d, createdAt = t\<rparr>;
                  (r2, w3) = storeAsync d w2 (key c) cd;
                  s2 = s1\<lparr>world := w3, trace := trace s1 @ [StorageStore (key c) cd]\<rparr>
              in case r2 of
                   Inl e \<Rightarrow> subjectError a e s2
                 | Inr _ \<Rightarrow> setCacheData a v s2))"

text \<open>\<open>_removeUnobservedCachesAsync\<close> (lines 102-110); \<open>except = undefined\<close> is \<open>None\<close>.\<close>

definition removeUnobservedCachesAsync ::
  "'k option \<Rightarrow> ('k, 'a, 'c, 'v, 'e, 'w) LocalCacheManager
     \<Rightarrow> ('k, 'a, 'c, 'v, 'e, 'w) LocalCacheManager"
where
  "removeUnobservedCachesAsync except s =
     (let unusedCaches =
            map fst (filter (\<lambda>(k, a). Some k \<noteq> except \<and> \<not> observed (subject (heap s a)))
                            (cacheStore s))
      in if unusedCaches \<noteq> []
         then s\<lparr>cacheStore := foldl (\<lambda>st k. store_delete k st) (cacheStore s) unusedCaches\<rparr>
         else s)"

text \<open>\<open>_getAndEnsureCache\<close> (lines 57-73): the entry's address and the new state.\<close>

definition getAndEnsureCache ::
  "'k \<Rightarrow> 'a \<Rightarrow> 'c \<Rightarrow> ('k, 'a, 'c, 'v, 'e, 'w) LocalCacheManager
     \<Rightarrow> nat \<times> ('k, 'a, 'c, 'v, 'e, 'w) LocalCacheManager"
where
  "getAndEnsureCache k args ctx s =
     (case map_of (cacheStore s) k of
        Some a \<Rightarrow> (a, s)
      | None \<Rightarrow>
          (let a = nextAddr s;
               c = \<lparr>key = k, lastArgs = args, callContext = ctx,
                    subject = new_ReplaySubject, initialized = False\<rparr>
           in (a, s\<lparr>heap := (heap s)(a := c), nextAddr := Suc a,
                    cacheStore := cacheStore s @ [(k, a)]\<rparr>)))"

text \<open>\<open>_refreshCacheIfOutOfDataAsync\<close> (lines 75-84). A rejected \<open>getAsync\<close> rejects the
  returned promise (\<open>Inl\<close>); \<open>now()\<close> is only called when a record was found.\<close>

definition refreshCacheIfOutOfDataAsync ::
  "('k, 'a, 'c, 'v, 'e, 'w) Deps \<Rightarrow> 'k \<Rightarrow> nat \<Rightarrow> ('k, 'a, 'c, 'v, 'e, 'w) LocalCacheManager
     \<Rightarrow> ('e + unit) \<times> ('k, 'a, 'c, 'v, 'e, 'w) LocalCacheManager"
where
  "refreshCacheIfOutOfDataAsync d k a s =
     (let (r, w1) = getAsync d (world s) k;
          s1 = s\<lparr>world := w1, trace := trace s @ [StorageGet k]\<rparr>
      in case r of
           Inl e \<Rightarrow> (Inl e, s1)
         | Inr None \<Rightarrow> (Inr (), refreshCacheData d a s1)
         | Inr (Some currentCacheData) \<Rightarrow>
             (let (t, w2) = now d w1;
                  s2 = s1\<lparr>world := w2\<rparr>
              in if isCacheOutdated currentCacheData t
                 then (Inr (), refreshCacheData d a s2)
                 else if \<not> initialized (heap s2 a)
                 then (Inr (), setCacheData a (data currentCacheData) s2)
                 else (Inr (), s2)))"

text \<open>\<open>getCache$\<close> (lines 30-39), the part that runs before it returns: the entry is
  found or made and the sweep runs. The result is the address of the entry whose subject
  the returned observable wraps.\<close>

definition getCache_sync ::
  "'k \<Rightarrow> 'a \<Rightarrow> 'c \<Rightarrow> ('k, 'a, 'c, 'v, 'e, 'w) LocalCacheManager
     \<Rightarrow> nat \<times> ('k, 'a, 'c, 'v, 'e, 'w) LocalCacheManager"
where
  "getCache_sync k args ctx s =
     (let (a, s1) = getAndEnsureCache k args ctx s
      in (a, removeUnobservedCachesAsync (Some k) s1))"

text \<open>\<open>getCache$\<close> with its staleness check run at once; the promise of line 36 is
  dropped, so its outcome is not part of the result.\<close>

definition getCache ::
  "('k, 'a, 'c, 'v, 'e, 'w) Deps \<Rightarrow> 'k \<Rightarrow> 'a \<Rightarrow> 'c \<Rightarrow> ('k, 'a, 'c, 'v, 'e, 'w) LocalCacheManager
     \<Rightarrow> nat \<times> ('k, 'a, 'c, 'v, 'e, 'w) LocalCacheManager"
where
  "getCache d k args ctx s =
     (let (a, s1) = getCache_sync k args ctx s
      in (a, snd (refreshCacheIfOutOfDataAsync d k a s1)))"

text \<open>The keys line 44 selects: the given key when it is truthy, else all keys of the map.\<close>

definition allToInvalidateAndUpdate ::
  "('k, 'a, 'c, 'v, 'e, 'w) Deps \<Rightarrow> 'k option \<Rightarrow> ('k, 'a, 'c, 'v, 'e, 'w) LocalCacheManager
     \<Rightarrow> 'k list"
where
  "allToInvalidateAndUpdate d cacheKey s =
     (case cacheKey of
        Some k \<Rightarrow> if truthy d k then [k] else map fst (cacheStore s)
      | None \<Rightarrow> map fst (cacheStore s))"

text \<open>
  \<open>_refreshCacheData\<close> in the pieces between its \<open>await\<close>s, for the refreshes that
  \<open>Promise.all\<close> keeps in flight together (lines 48-54). A refresh that has been started is
  waiting for the producer (with the result the producer will settle to), or waiting for
  the store (with the value and the result of the write), or finished; \<open>NoEntry\<close> is a
  callback that found no entry for its key.
\<close>

datatype ('v, 'e) pending =
    NoEntry
  | AwaitProducer nat "'e + 'v"
  | AwaitStore nat 'v "'e + unit"
  | Finished nat

text \<open>Line 88 up to its \<open>await\<close>: the producer is called.\<close>

definition startRefresh ::
  "('k, 'a, 'c, 'v, 'e, 'w) Deps \<Rightarrow> nat \<Rightarrow> ('k, 'a, 'c, 'v, 'e, 'w) LocalCacheManager
     \<Rightarrow> ('v, 'e) pending \<times> ('k, 'a, 'c, 'v, 'e, 'w) LocalCacheManager"
where
  "startRefresh d a s =
     (let c = heap s a;
          (r, w1) = dataProvider d (world s) (callContext c) (lastArgs c)
      in (AwaitProducer a r,
          s\<lparr>world := w1, trace := trace s @ [ProducerCall (callContext c) (lastArgs c)]\<rparr>))"

text \<open>The continuation after a settled \<open>await\<close>: after the producer, lines 90-94 up to the
  next \<open>await\<close> or the \<open>catch\<close> of line 98; after the store, line 96 or the \<open>catch\<close>. A
  finished refresh has no continuation.\<close>

fun resumeRefresh ::
  "('k, 'a, 'c, 'v, 'e, 'w) Deps \<Rightarrow> ('v, 'e) pending \<Rightarrow> ('k, 'a, 'c, 'v, 'e, 'w) LocalCacheManager
     \<Rightarrow> ('v, 'e) pending \<times> ('k, 'a, 'c, 'v, 'e, 'w) LocalCacheManager"
where
  "resumeRefresh d (AwaitProducer a (Inl e)) s = (Finished a, subjectError a e s)"
| "resumeRefresh d (AwaitProducer a (Inr v)) s =
     (let c = heap s a;
          (t, w2) = now d (world s);
          cd = \<lparr>data = v, maxAgeMS = maxAgeInMS d, createdAt = t\<rparr>;
          (r2, w3) = storeAsync d w2 (key c) cd
      in (AwaitStore a v r2, s\<lparr>world := w3, trace := trace s @ [StorageStore (key c) cd]\<rparr>))"
| "resumeRefresh d (AwaitStore a v (Inl e)) s = (Finished a, subjectError a e s)"
| "resumeRefresh d (AwaitStore a v (Inr u)) s = (Finished a, setCacheData a v s)"
| "resumeRefresh d (Finished a) s = (Finished a, s)"
| "resumeRefresh d NoEntry s = (NoEntry, s)"

text \<open>The callback of lines 48-54 for one key, up to its first \<open>await\<close>.\<close>

definition startIfPresent ::
  "('k, 'a, 'c, 'v, 'e, 'w) Deps \<Rightarrow> 'k \<Rightarrow> ('k, 'a, 'c, 'v, 'e, 'w) LocalCacheManager
     \<Rightarrow> ('v, 'e) pending \<times> ('k, 'a, 'c, 'v, 'e, 'w) LocalCacheManager"
where
  "startIfPresent d k s =
     (case map_of (cacheStore s) k of
        Some a \<Rightarrow> startRefresh d a s
      | None \<Rightarrow> (NoEntry, s))"

text \<open>\<open>allToInvalidateAndUpdate.map(async ...)\<close>: every callback runs up to its first
  \<open>await\<close>, in the order of the keys, before any continuation runs.\<close>

fun startAll ::
  "('k, 'a, 'c, 'v, 'e, 'w) Deps \<Rightarrow> 'k list \<Rightarrow> ('k, 'a, 'c, 'v, 'e, 'w) LocalCacheManager
     \<Rightarrow> ('v, 'e) pending list \<times> ('k, 'a, 'c, 'v, 'e, 'w) LocalCacheManager"
where
  "startAll d [] s = ([], s)"
| "startAll d (k # ks) s =
     (let (p, s1) = startIfPresent d k s;
          (ps, s2) = startAll d ks s1
      in (p # ps, s2))"

text \<open>One continuation of the refresh at position \<open>i\<close>; a position outside the list is
  nobody's continuation.\<close>

definition resumeAt ::
  "('k, 'a, 'c, 'v, 'e, 'w) Deps \<Rightarrow> nat
     \<Rightarrow> ('v, 'e) pending list \<times> ('k, 'a, 'c, 'v, 'e, 'w) LocalCacheManager
     \<Rightarrow> ('v, 'e) pending list \<times> ('k, 'a, 'c, 'v, 'e, 'w) LocalCacheManager"
where
  "resumeAt d i ps_s =
     (let (ps, s) = ps_s
      in if i < length ps
         then (let (p, s') = resumeRefresh d (ps ! i) s in (ps[i := p], s'))
         else (ps, s))"

definition resumeAll ::
  "('k, 'a, 'c, 'v, 'e, 'w) Deps \<Rightarrow> nat list \<Rightarrow> ('v, 'e) pending list
     \<Rightarrow> ('k, 'a, 'c, 'v, 'e, 'w) LocalCacheManager
     \<Rightarrow> ('v, 'e) pending list \<times> ('k, 'a, 'c, 'v, 'e, 'w) LocalCacheManager"
where
  "resumeAll d order ps s = foldl (\<lambda>ps_s i. resumeAt d i ps_s) (ps, s) order"

text \<open>\<open>invalidateAndUpdateAsync\<close> (lines 41-55). A rejected \<open>removeAsync\<close> rejects the
  call before any refresh. Otherwise every callback of line 48 is started, which calls
  the producers in the order of the keys, and \<open>await Promise.all\<close> returns when all of
  them have finished: their continuations run in the order in which the promises settle,
  and whatever that order leaves pending is run through, every refresh having at most
  two continuations.\<close>

definition invalidateAndUpdateAsync ::
  "('k, 'a, 'c, 'v, 'e, 'w) Deps \<Rightarrow> 'k option \<Rightarrow> ('k, 'a, 'c, 'v, 'e, 'w) LocalCacheManager
     \<Rightarrow> ('e + unit) \<times> ('k, 'a, 'c, 'v, 'e, 'w) LocalCacheManager"
where
  "invalidateAndUpdateAsync d cacheKey s =
     (let s1 = removeUnobservedCachesAsync None s;
          ks = allToInvalidateAndUpdate d cacheKey s1;
          (r, w1) = removeAsync d (world s1) ks;
          s2 = s1\<lparr>world := w1, trace := trace s1 @ [StorageRemove ks]\<rparr>
      in case r of
           Inl e \<Rightarrow> (Inl e, s2)
         | Inr _ \<Rightarrow>
             (let (ps, s3) = startAll d ks s2;
                  order = settleOrder d (world s3) @ [0..<length ps] @ [0..<length ps]
              in (Inr (), snd (resumeAll d order ps s3))))"

text \<open>A consumer subscribing to the observable that \<open>getCache$\<close> returned for the
  entry at \<open>a\<close>: a new subscriber is made and handed to the entry's subject.\<close>

definition subscribe ::
  "nat \<Rightarrow> ('k, 'a, 'c, 'v, 'e, 'w) LocalCacheManager
     \<Rightarrow> nat \<times> ('k, 'a, 'c, 'v, 'e, 'w) LocalCacheManager"
where
  "subscribe a s =
     (let sid = nextSubscriber s;
          c = heap s a;
          (subj, dl) = subscribe_RS sid (subject c)
      in (sid, s\<lparr>heap := (heap s)(a := c\<lparr>subject := subj\<rparr>), nextSubscriber := Suc sid,
                 trace := trace s @ map (\<lambda>(sid, n). Deliver sid n) dl\<rparr>))"

definition unsubscribe ::
  "nat \<Rightarrow> nat \<Rightarrow> ('k, 'a, 'c, 'v, 'e, 'w) LocalCacheManager
     \<Rightarrow> ('k, 'a, 'c, 'v, 'e, 'w) LocalCacheManager"
where
  "unsubscribe a sid s =
     (let c = heap s a
      in s\<lparr>heap := (heap s)(a := c\<lparr>subject := unsubscribe_RS sid (subject c)\<rparr>)\<rparr>)"

section \<open>Sequences of operations\<close>

text \<open>
  What can happen to a manager, one step at a time: a read with its staleness check run
  at once (\<open>Read\<close>), a read whose staleness check is still pending (\<open>ReadPending\<close>), a
  pending staleness check running later on the entry it was started with
  (\<open>StalenessCheck\<close>), an invalidation, and consumers subscribing to and unsubscribing from
  an entry's observable. Entry objects are only reached through references, so a step on
  an address that was never allocated does nothing.
\<close>

datatype ('k, 'a, 'c) operation =
    Read 'k 'a 'c
  | ReadPending 'k 'a 'c
  | StalenessCheck 'k nat
  | Invalidate "'k option"
  | Subscribe nat
  | Unsubscribe nat nat

fun apply_op ::
  "('k, 'a, 'c, 'v, 'e, 'w) Deps \<Rightarrow> ('k, 'a, 'c, 'v, 'e, 'w) LocalCacheManager
     \<Rightarrow> ('k, 'a, 'c) operation \<Rightarrow> ('k, 'a, 'c, 'v, 'e, 'w) LocalCacheManager"
where
  "apply_op d s (Read k args ctx) = snd (getCache d k args ctx s)"
| "apply_op d s (ReadPending k args ctx) = snd (getCache_sync k args ctx s)"
| "apply_op d s (StalenessCheck k a) =
     (if a < nextAddr s then snd (refreshCacheIfOutOfDataAsync d k a s) else s)"
| "apply_op d s (Invalidate cacheKey) = snd (invalidateAndUpdateAsync d cacheKey s)"
| "apply_op d s (Subscribe a) = (if a < nextAddr s then snd (subscribe a s) else s)"
| "apply_op d s (Unsubscribe a sid) = (if a < nextAddr s then unsubscribe a sid s else s)"

definition run ::
  "('k, 'a, 'c, 'v, 'e, 'w) Deps \<Rightarrow> ('k, 'a, 'c) operation list
     \<Rightarrow> ('k, 'a, 'c, 'v, 'e, 'w) LocalCacheManager \<Rightarrow> ('k, 'a, 'c, 'v, 'e, 'w) LocalCacheManager"
where
  "run d ops s = foldl (apply_op d) s ops"

text \<open>The events a step added to the trace.\<close>

definition newEvents ::
  "('k, 'a, 'c, 'v, 'e, 'w) LocalCacheManager \<Rightarrow> ('k, 'a, 'c, 'v, 'e, 'w) LocalCacheManager
     \<Rightarrow> ('k, 'a, 'c, 'v, 'e) event list"
where
  "newEvents s s' = drop (length (trace s)) (trace s')"

text \<open>Projections of a trace: the producer calls, the records written to the durable
  store, whether \<open>next\<close> was called on the subject of the entry at \<open>a\<close> (every call counts,
  also one that a stopped subject drops), and whether every written record carries the
  max-age \<open>m\<close>.\<close>

definition producerCalls :: "('k, 'a, 'c, 'v, 'e) event list \<Rightarrow> ('c \<times> 'a) list" where
  "producerCalls evs =
     concat (map (\<lambda>ev. case ev of ProducerCall c args \<Rightarrow> [(c, args)] | _ \<Rightarrow> []) evs)"

definition storageWrites :: "('k, 'a, 'c, 'v, 'e) event list \<Rightarrow> ('k \<times> 'v CacheData) list" where
  "storageWrites evs =
     concat (map (\<lambda>ev. case ev of StorageStore k cd \<Rightarrow> [(k, cd)] | _ \<Rightarrow> []) evs)"

definition nextCalledOn :: "nat \<Rightarrow> ('k, 'a, 'c, 'v, 'e) event list \<Rightarrow> bool" where
  "nextCalledOn a evs = list_ex (\<lambda>ev. case ev of SubjectNext a' _ \<Rightarrow> a' = a | _ \<Rightarrow> False) evs"

definition storesCarry :: "int \<Rightarrow> ('k, 'a, 'c, 'v, 'e) event list \<Rightarrow> bool" where
  "storesCarry m evs = list_all (\<lambda>(k, cd). maxAgeMS cd = m) (storageWrites evs)"

text \<open>Relations used in the proofs. A step keeps the entries when it leaves the map
  and the allocation counter alone, changes no entry's key, arguments or context, and
  resets no initialized flag; \<open>captured\<close> is the same for one entry when the map may change.
  A store is allocated when every address in the map is below the allocation counter. A
  step is only carrying when it only appends to the trace and every record it writes has
  the manager's max-age. The flags agree with the trace when an allocated entry is
  initialized exactly if \<open>next\<close> was called on its subject, and no call is recorded for an
  address not yet allocated.\<close>

definition keepsEntries ::
  "('k, 'a, 'c, 'v, 'e, 'w) LocalCacheManager \<Rightarrow> ('k, 'a, 'c, 'v, 'e, 'w) LocalCacheManager \<Rightarrow> bool"
where
  "keepsEntries s s' \<longleftrightarrow>
     cacheStore s' = cacheStore s \<and> nextAddr s' = nextAddr s \<and>
     (\<forall>b. key (heap s' b) = key (heap s b) \<and> lastArgs (heap s' b) = lastArgs (heap s b) \<and>
          callContext (heap s' b) = callContext (heap s b) \<and>
          (initialized (heap s b) \<longrightarrow> initialized (heap s' b)))"

text \<open>What every step keeps of an entry allocated before it.\<close>

definition captured ::
  "('k, 'a, 'c, 'v, 'e, 'w) LocalCacheManager \<Rightarrow> ('k, 'a, 'c, 'v, 'e, 'w) LocalCacheManager
     \<Rightarrow> nat \<Rightarrow> bool"
where
  "captured s s' b \<longleftrightarrow>
     nextAddr s \<le> nextAddr s' \<and> key (heap s' b) = key (heap s b) \<and>
     lastArgs (heap s' b) = lastArgs (heap s b) \<and>
     callContext (heap s' b) = callContext (heap s b) \<and>
     (initialized (heap s b) \<longrightarrow> initialized (heap s' b))"

definition storeAllocated :: "('k, 'a, 'c, 'v, 'e, 'w) LocalCacheManager \<Rightarrow> bool" where
  "storeAllocated s = list_all (\<lambda>(k, a). a < nextAddr s) (cacheStore s)"

definition onlyCarrying ::
  "('k, 'a, 'c, 'v, 'e, 'w) Deps \<Rightarrow> ('k, 'a, 'c, 'v, 'e, 'w) LocalCacheManager
     \<Rightarrow> ('k, 'a, 'c, 'v, 'e, 'w) LocalCacheManager \<Rightarrow> bool"
where
  "onlyCarrying d s s' \<longleftrightarrow>
     take (length (trace s)) (trace s') = trace s \<and>
     storesCarry (maxAgeInMS d) (newEvents s s')"

text \<open>A stopped subject stays the same failure when it stays stopped with the same error
  and the same value to replay; \<open>failedSame\<close> says so of one entry's subject across a step.\<close>

definition sameFailure :: "('v, 'e) ReplaySubject \<Rightarrow> ('v, 'e) ReplaySubject \<Rightarrow> bool" where
  "sameFailure r r' \<longleftrightarrow>
     isStopped r' \<and> thrownError r' = thrownError r \<and>
     buffer (trimBuffer r') = buffer (trimBuffer r)"

definition failedSame ::
  "('k, 'a, 'c, 'v, 'e, 'w) LocalCacheManager \<Rightarrow> ('k, 'a, 'c, 'v, 'e, 'w) LocalCacheManager
     \<Rightarrow> nat \<Rightarrow> bool"
where
  "failedSame s s' b \<longleftrightarrow>
     nextAddr s \<le> nextAddr s' \<and> sameFailure (subject (heap s b)) (subject (heap s' b))"

text \<open>The entry a pending refresh works on, and the number of continuations it still has.\<close>

fun addrOf :: "('v, 'e) pending \<Rightarrow> nat option" where
  "addrOf NoEntry = None"
| "addrOf (AwaitProducer a r) = Some a"
| "addrOf (AwaitStore a v r) = Some a"
| "addrOf (Finished a) = Some a"

fun stagesLeft :: "('v, 'e) pending \<Rightarrow> nat" where
  "stagesLeft NoEntry = 0"
| "stagesLeft (AwaitProducer a (Inl e)) = 1"
| "stagesLeft (AwaitProducer a (Inr v)) = 2"
| "stagesLeft (AwaitStore a v r) = 1"
| "stagesLeft (Finished a) = 0"

definition pendingIn :: "nat set \<Rightarrow> ('v, 'e) pending list \<Rightarrow> bool" where
  "pendingIn A ps \<longleftrightarrow> (\<forall>p \<in> set ps. \<forall>a. addrOf p = Some a \<longrightarrow> a \<in> A)"

text \<open>The states that the steps of refreshes on the entries in \<open>A\<close> lead to: a call of
  the producer, a write of a record with the manager's max-age, \<open>error\<close> or
  \<open>_setCacheData\<close> on an entry of \<open>A\<close>.\<close>

inductive pipelineSteps ::
  "('k, 'a, 'c, 'v, 'e, 'w) Deps \<Rightarrow> nat set \<Rightarrow> ('k, 'a, 'c, 'v, 'e, 'w) LocalCacheManager
     \<Rightarrow> ('k, 'a, 'c, 'v, 'e, 'w) LocalCacheManager \<Rightarrow> bool"
  for d :: "('k, 'a, 'c, 'v, 'e, 'w) Deps" and A :: "nat set"
    and s :: "('k, 'a, 'c, 'v, 'e, 'w) LocalCacheManager"
where
  stepHere: "pipelineSteps d A s s"
| stepCall: "pipelineSteps d A s s' \<Longrightarrow>
         pipelineSteps d A s (s'\<lparr>world := w, trace := trace s' @ [ProducerCall c args]\<rparr>)"
| stepWrite: "pipelineSteps d A s s' \<Longrightarrow> maxAgeMS cd = maxAgeInMS d \<Longrightarrow>
          pipelineSteps d A s (s'\<lparr>world := w, trace := trace s' @ [StorageStore k cd]\<rparr>)"
| stepFail: "pipelineSteps d A s s' \<Longrightarrow> a \<in> A \<Longrightarrow> pipelineSteps d A s (subjectError a e s')"
| stepPublish: "pipelineSteps d A s s' \<Longrightarrow> a \<in> A \<Longrightarrow> pipelineSteps d A s (setCacheData a v s')"

definition flagsAgree :: "('k, 'a, 'c, 'v, 'e, 'w) LocalCacheManager \<Rightarrow> bool" where
  "flagsAgree s \<longleftrightarrow>
     (\<forall>a. (a < nextAddr s \<longrightarrow> initialized (heap s a) = nextCalledOn a (trace s)) \<and>
          (nextAddr s \<le> a \<longrightarrow> \<not> nextCalledOn a (trace s)))"

text \<open>One continuation of a pending refresh, on a pair of the refresh and the state.\<close>

definition resumeStep ::
  "('k, 'a, 'c, 'v, 'e, 'w) Deps
     \<Rightarrow> ('v, 'e) pending \<times> ('k, 'a, 'c, 'v, 'e, 'w) LocalCacheManager
     \<Rightarrow> ('v, 'e) pending \<times> ('k, 'a, 'c, 'v, 'e, 'w) LocalCacheManager"
where
  "resumeStep d ps_s = resumeRefresh d (fst ps_s) (snd ps_s)"

text \<open>What a refresh of the entry at \<open>a\<close> that ran to its end between the states \<open>s0\<close> and
  \<open>s'\<close> has done, given the result \<open>r\<close> of its producer. It failed with \<open>e\<close> when \<open>error e\<close>
  was called on the subject of the entry, \<open>next\<close> was not, and the entry is the one of \<open>s0\<close>
  with \<open>error e\<close> applied to its subject. When the producer failed with \<open>e\<close>, the refresh
  failed with \<open>e\<close>. When the producer returned \<open>v\<close>, a record with \<open>v\<close> and the manager's
  max-age was written under the entry's key, and then either \<open>next\<close> was called with \<open>v\<close>
  and the entry is the one of \<open>s0\<close> with \<open>next v\<close> applied to its subject and the
  initialized flag set, or the refresh failed with the error of the write.\<close>

definition failedWith ::
  "('k, 'a, 'c, 'v, 'e, 'w) LocalCacheManager \<Rightarrow> ('k, 'a, 'c, 'v, 'e, 'w) LocalCacheManager
     \<Rightarrow> nat \<Rightarrow> 'e \<Rightarrow> bool"
where
  "failedWith s0 s' a e \<longleftrightarrow>
     SubjectError a e \<in> set (newEvents s0 s') \<and> \<not> nextCalledOn a (newEvents s0 s') \<and>
     heap s' a = (heap s0 a)\<lparr>subject := fst (error_RS e (subject (heap s0 a)))\<rparr>"

definition pipelineCompleted ::
  "('k, 'a, 'c, 'v, 'e, 'w) Deps \<Rightarrow> ('k, 'a, 'c, 'v, 'e, 'w) LocalCacheManager
     \<Rightarrow> ('k, 'a, 'c, 'v, 'e, 'w) LocalCacheManager \<Rightarrow> nat \<Rightarrow> 'e + 'v \<Rightarrow> bool"
where
  "pipelineCompleted d s0 s' a r \<longleftrightarrow>
     (case r of
        Inl e \<Rightarrow> failedWith s0 s' a e
      | Inr v \<Rightarrow>
          (\<exists>t. StorageStore (key (heap s0 a))
                  \<lparr>data = v, maxAgeMS = maxAgeInMS d, createdAt = t\<rparr> \<in> set (newEvents s0 s')) \<and>
          (SubjectNext a v \<in> set (newEvents s0 s') \<and>
           heap s' a = (heap s0 a)\<lparr>subject := fst (next_RS v (subject (heap s0 a))),
                                   initialized := True\<rparr>
           \<or> (\<exists>e. failedWith s0 s' a e)))"

text \<open>What holds of a refresh in flight, by its stage, where \<open>p0\<close> is the refresh as it
  was started: before its last continuation the entry is untouched and \<open>next\<close> was not
  called on it, after the producer returned a value and the write was started the
  record is in the trace, and at the end the refresh is completed for the result of its
  producer. The refreshes in flight work on different entries.\<close>

fun taskOk ::
  "('k, 'a, 'c, 'v, 'e, 'w) Deps \<Rightarrow> ('k, 'a, 'c, 'v, 'e, 'w) LocalCacheManager
     \<Rightarrow> ('k, 'a, 'c, 'v, 'e, 'w) LocalCacheManager \<Rightarrow> ('v, 'e) pending \<Rightarrow> ('v, 'e) pending \<Rightarrow> bool"
where
  "taskOk d s0 s' p0 NoEntry = (p0 = NoEntry)"
| "taskOk d s0 s' p0 (AwaitProducer a r) =
     (p0 = AwaitProducer a r \<and> heap s' a = heap s0 a \<and> \<not> nextCalledOn a (newEvents s0 s'))"
| "taskOk d s0 s' p0 (AwaitStore a v r2) =
     (p0 = AwaitProducer a (Inr v) \<and> heap s' a = heap s0 a \<and>
      \<not> nextCalledOn a (newEvents s0 s') \<and>
      (\<exists>t. StorageStore (key (heap s0 a))
              \<lparr>data = v, maxAgeMS = maxAgeInMS d, createdAt = t\<rparr> \<in> set (newEvents s0 s')))"
| "taskOk d s0 s' p0 (Finished a) = (\<exists>r. p0 = AwaitProducer a r \<and> pipelineCompleted d s0 s' a r)"

definition addrsDistinct :: "('v, 'e) pending list \<Rightarrow> bool" where
  "addrsDistinct ps \<longleftrightarrow>
     (\<forall>i j a. i < length ps \<and> j < length ps \<and> i \<noteq> j \<and> addrOf (ps ! i) = Some a
         \<longrightarrow> addrOf (ps ! j) \<noteq> Some a)"

definition tasksOk ::
  "('k, 'a, 'c, 'v, 'e, 'w) Deps \<Rightarrow> ('k, 'a, 'c, 'v, 'e, 'w) LocalCacheManager
     \<Rightarrow> ('v, 'e) pending list
     \<Rightarrow> ('v, 'e) pending list \<times> ('k, 'a, 'c, 'v, 'e, 'w) LocalCacheManager \<Rightarrow> bool"
where
  "tasksOk d s0 ps0 ps_s \<longleftrightarrow>
     take (length (trace s0)) (trace (snd ps_s)) = trace s0 \<and>
     addrsDistinct (fst ps_s) \<and> length ps0 = length (fst ps_s) \<and>
     (\<forall>i < length (fst ps_s). taskOk d s0 (snd ps_s) (ps0 ! i) (fst ps_s ! i))"

text \<open>The map of entries as a \<open>Map\<close> holds it: no key twice, no entry object under two
  keys, every address allocated. And what the buffer tells of the flag: an allocated entry
  whose subject holds a value is initialized.\<close>

definition storeWellFormed :: "('k, 'a, 'c, 'v, 'e, 'w) LocalCacheManager \<Rightarrow> bool" where
  "storeWellFormed s \<longleftrightarrow>
     distinct (map fst (cacheStore s)) \<and> distinct (map snd (cacheStore s)) \<and> storeAllocated s"

definition valuesFlagged :: "('k, 'a, 'c, 'v, 'e, 'w) LocalCacheManager \<Rightarrow> bool" where
  "valuesFlagged s \<longleftrightarrow>
     (\<forall>a. a < nextAddr s \<and> buffer (subject (heap s a)) \<noteq> [] \<longrightarrow> initialized (heap s a))"


section \<open>The example of the specification\<close>

text \<open>
  Key \<open>A\<close> with a maximal age of 1000 ms, over a small world: a clock, a store kept as an
  association list, a producer that returns a counter, and switches that make the
  producer, the store's write and the store's removal fail.
\<close>

record ExWorld =
  clock :: int
  stored :: "(string \<times> nat CacheData) list"
  produced :: nat
  producerFails :: bool
  storeFails :: bool
  removeFails :: bool

definition exDeps :: "(string, nat list, string, nat, string, ExWorld) Deps" where
  "exDeps =
     \<lparr>getAsync = (\<lambda>w k. (Inr (map_of (stored w) k), w)),
      storeAsync = (\<lambda>w k cd.
         if storeFails w then (Inl ''store failed'', w)
         else (Inr (), w\<lparr>stored := (k, cd) # stored w\<rparr>)),
      removeAsync = (\<lambda>w ks.
         if removeFails w then (Inl ''remove failed'', w)
         else (Inr (), w\<lparr>stored := filter (\<lambda>(k, _). k \<notin> set ks) (stored w)\<rparr>)),
      dataProvider = (\<lambda>w ctx args.
         if producerFails w then (Inl ''producer failed'', w)
         else (Inr (produced w), w\<lparr>produced := Suc (produced w)\<rparr>)),
      now = (\<lambda>w. (clock w, w)),
      maxAgeInMS = 1000,
      truthy = (\<lambda>k. k \<noteq> []),
      settleOrder = (\<lambda>w. [1, 0])\<rparr>"

definition exWorld :: ExWorld where
  "exWorld =
     \<lparr>clock = 0, stored = [], produced = 7, producerFails = False, storeFails = False,
      removeFails = False\<rparr>"

definition exCache :: "string \<Rightarrow> (string, nat list, string, nat, string) Cache" where
  "exCache k =
     \<lparr>key = k, lastArgs = [1], callContext = ''svc'', subject = new_ReplaySubject,
      initialized = False\<rparr>"

definition exManager :: "(string, nat list, string, nat, string, ExWorld) LocalCacheManager" where
  "exManager = new_LocalCacheManager (exCache []) exWorld"

text \<open>A manager holding one entry for key \<open>A\<close> at address 0, with the given subject.\<close>

definition exWith ::
  "(nat, string) ReplaySubject \<Rightarrow> bool \<Rightarrow> ExWorld
     \<Rightarrow> (string, nat list, string, nat, string, ExWorld) LocalCacheManager"
where
  "exWith subj ini w =
     \<lparr>cacheStore = [(''A'', 0)],
      heap = (\<lambda>_. (exCache ''A'')\<lparr>subject := subj, initialized := ini\<rparr>),
      nextAddr = 1, nextSubscriber = 5, world = w, trace = []\<rparr>"

text \<open>A manager with three entries, of which only the one for key \<open>A\<close> has an observer.\<close>

definition exThree :: "(string, nat list, string, nat, string, ExWorld) LocalCacheManager" where
  "exThree =
     \<lparr>cacheStore = [(''A'', 0), (''B'', 1), (''C'', 2)],
      heap = (\<lambda>a. if a = 0 then (exCache ''A'')\<lparr>subject := new_ReplaySubject\<lparr>observers := [3]\<rparr>\<rparr>
                  else if a = 1 then exCache ''B'' else exCache ''C''),
      nextAddr = 3, nextSubscriber = 5, world = exWorld, trace = []\<rparr>"

text \<open>The entry for \<open>A\<close> served once and observed, then invalidated while the producer is
  down.\<close>

definition exFailed :: "(string, nat list, string, nat, string, ExWorld) LocalCacheManager" where
  "exFailed =
     run exDeps [Invalidate (Some ''A'')]
       ((run exDeps [Read ''A'' [1] ''svc'', Subscribe 0] exManager)
          \<lparr>world := exWorld\<lparr>producerFails := True\<rparr>\<rparr>)"

text \<open>A manager with three entries, of which those for \<open>A\<close> and \<open>B\<close> have an observer.\<close>

definition exBoth :: "(string, nat list, string, nat, string, ExWorld) LocalCacheManager" where
  "exBoth =
     \<lparr>cacheStore = [(''A'', 0), (''B'', 1), (''C'', 2)],
      heap = (\<lambda>a. if a = 0 then (exCache ''A'')\<lparr>subject := new_ReplaySubject\<lparr>observers := [3]\<rparr>\<rparr>
                  else if a = 1 then (exCache ''B'')\<lparr>subject := new_ReplaySubject\<lparr>observers := [4]\<rparr>\<rparr>
                  else exCache ''C''),
      nextAddr = 3, nextSubscriber = 5, world = exWorld, trace = []\<rparr>"

text \<open>The collaborators of the example with a producer that fails on every other call,
  starting with the first.\<close>

definition exFlaky :: "(string, nat list, string, nat, string, ExWorld) Deps" where
  "exFlaky =
     exDeps\<lparr>dataProvider := (\<lambda>w ctx args.
        if odd (produced w) then (Inl ''producer failed'', w\<lparr>produced := Suc (produced w)\<rparr>)
        else (Inr (produced w), w\<lparr>produced := Suc (produced w)\<rparr>))\<rparr>"

text \<open>The definitions that a run of the example unfolds to.\<close>

lemmas exRun = run_def getCache_def getCache_sync_def getAndEnsureCache_def
      removeUnobservedCachesAsync_def refreshCacheIfOutOfDataAsync_def refreshCacheData_def
      setCacheData_def subjectError_def exManager_def new_LocalCacheManager_def exDeps_def
      exFlaky_def exWorld_def exCache_def observed_def new_ReplaySubject_def next_RS_def
      error_RS_def trimBuffer_def store_delete_def subscribe_def subscribe_RS_def hasError_def
      unsubscribe_def unsubscribe_RS_def newEvents_def Let_def

section \<open>Basic facts\<close>

lemma producerCalls_simps [simp]:
  "producerCalls [] = []"
  "producerCalls (xs @ ys) = producerCalls xs @ producerCalls ys"
  "producerCalls (ProducerCall c args # evs) = (c, args) # producerCalls evs"
  "producerCalls (StorageGet k # evs) = producerCalls evs"
  "producerCalls (StorageStore k cd # evs) = producerCalls evs"
  "producerCalls (StorageRemove ks # evs) = producerCalls evs"
  "producerCalls (SubjectNext a v # evs) = producerCalls evs"
  "producerCalls (SubjectError a e # evs) = producerCalls evs"
  "producerCalls (Deliver sid n # evs) = producerCalls evs"
  by (simp_all add: producerCalls_def)

lemma producerCalls_Deliver [simp]:
  "producerCalls (map (\<lambda>(sid, n). Deliver sid n) dl) = []"
  by (induction dl) (auto simp: producerCalls_def)

lemma storageWrites_simps [simp]:
  "storageWrites [] = []"
  "storageWrites (xs @ ys) = storageWrites xs @ storageWrites ys"
  "storageWrites (ProducerCall c args # evs) = storageWrites evs"
  "storageWrites (StorageGet k # evs) = storageWrites evs"
  "storageWrites (StorageStore k cd # evs) = (k, cd) # storageWrites evs"
  "storageWrites (StorageRemove ks # evs) = storageWrites evs"
  "storageWrites (SubjectNext a v # evs) = storageWrites evs"
  "storageWrites (SubjectError a e # evs) = storageWrites evs"
  "storageWrites (Deliver sid n # evs) = storageWrites evs"
  by (simp_all add: storageWrites_def)

lemma storageWrites_Deliver [simp]:
  "storageWrites (map (\<lambda>(sid, n). Deliver sid n) dl) = []"
  by (induction dl) (auto simp: storageWrites_def)

lemma nextCalledOn_simps [simp]:
  "nextCalledOn a [] = False"
  "nextCalledOn a (xs @ ys) = (nextCalledOn a xs \<or> nextCalledOn a ys)"
  "nextCalledOn a (ProducerCall c args # evs) = nextCalledOn a evs"
  "nextCalledOn a (StorageGet k # evs) = nextCalledOn a evs"
  "nextCalledOn a (StorageStore k cd # evs) = nextCalledOn a evs"
  "nextCalledOn a (StorageRemove ks # evs) = nextCalledOn a evs"
  "nextCalledOn a (SubjectNext a' v # evs) = (a' = a \<or> nextCalledOn a evs)"
  "nextCalledOn a (SubjectError a' e # evs) = nextCalledOn a evs"
  "nextCalledOn a (Deliver sid n # evs) = nextCalledOn a evs"
  by (simp_all add: nextCalledOn_def)

lemma nextCalledOn_Deliver [simp]:
  "nextCalledOn a (map (\<lambda>(sid, n). Deliver sid n) dl) = False"
  by (induction dl) (auto simp: nextCalledOn_def)

lemma newEvents_append: "newEvents s (s'\<lparr>trace := trace s @ evs\<rparr>) = evs"
  by (simp add: newEvents_def)

lemma newEvents_eq: "trace s' = trace s @ evs \<Longrightarrow> newEvents s s' = evs"
  by (simp add: newEvents_def)

lemma foldl_store_delete:
  "foldl (\<lambda>st k. store_delete k st) st ks = filter (\<lambda>(k, _). k \<notin> set ks) st"
  by (induction ks arbitrary: st) (auto simp: store_delete_def case_prod_unfold intro: filter_cong)

lemma error_RS_eq:
  "error_RS e r =
     (if isStopped r then (r, [])
      else (r\<lparr>isStopped := True, thrownError := Some e, observers := []\<rparr>,
            map (\<lambda>ob. (ob, ErrorN e)) (observers r)))"
  by (simp add: error_RS_def)

lemma setCacheData_shape:
  "setCacheData a v s =
     s\<lparr>heap := (heap s)(a := (heap s a)\<lparr>subject := fst (next_RS v (subject (heap s a))),
                                         initialized := True\<rparr>),
       trace := trace s @ SubjectNext a v #
                map (\<lambda>(sid, n). Deliver sid n) (snd (next_RS v (subject (heap s a))))\<rparr>"
  by (simp add: setCacheData_def Let_def split_beta)

lemma subjectError_shape:
  "subjectError a e s =
     s\<lparr>heap := (heap s)(a := (heap s a)\<lparr>subject := fst (error_RS e (subject (heap s a)))\<rparr>),
       trace := trace s @ SubjectError a e #
                map (\<lambda>(sid, n). Deliver sid n) (snd (error_RS e (subject (heap s a))))\<rparr>"
  by (simp add: subjectError_def Let_def split_beta)

subsection \<open>The sweep\<close>

lemma sweep_fields:
  "heap (removeUnobservedCachesAsync except s) = heap s"
  "nextAddr (removeUnobservedCachesAsync except s) = nextAddr s"
  "nextSubscriber (removeUnobservedCachesAsync except s) = nextSubscriber s"
  "world (removeUnobservedCachesAsync except s) = world s"
  "trace (removeUnobservedCachesAsync except s) = trace s"
  by (simp_all add: removeUnobservedCachesAsync_def Let_def)

lemma sweep_store:
  assumes "distinct (map fst (cacheStore s))"
  shows "removeUnobservedCachesAsync except s =
    s\<lparr>cacheStore := filter (\<lambda>(k, a). Some k = except \<or> observed (subject (heap s a))) (cacheStore s)\<rparr>"
proof -
  let ?P = "\<lambda>(k, a). Some k \<noteq> except \<and> \<not> observed (subject (heap s a))"
  let ?un = "map fst (filter ?P (cacheStore s))"
  have mem: "\<And>k a. (k, a) \<in> set (cacheStore s) \<Longrightarrow> (k \<in> set ?un) = ?P (k, a)"
  proof -
    fix k a assume ka: "(k, a) \<in> set (cacheStore s)"
    show "(k \<in> set ?un) = ?P (k, a)"
    proof
      assume "k \<in> set ?un"
      then obtain a' where a': "(k, a') \<in> set (cacheStore s)" "?P (k, a')" by auto
      from assms ka a'(1) have "a' = a" by (meson eq_key_imp_eq_value)
      with a'(2) show "?P (k, a)" by simp
    next
      assume "?P (k, a)"
      with ka show "k \<in> set ?un" by force
    qed
  qed
  have eq: "filter (\<lambda>(k, _). k \<notin> set ?un) (cacheStore s)
      = filter (\<lambda>(k, a). Some k = except \<or> observed (subject (heap s a))) (cacheStore s)"
    by (rule filter_cong) (use mem in auto)
  show ?thesis
  proof (cases "?un = []")
    case True
    have "filter (\<lambda>(k, _). k \<notin> set ?un) (cacheStore s) = cacheStore s"
      using True by simp
    with eq True show ?thesis by (simp add: removeUnobservedCachesAsync_def)
  next
    case False
    then show ?thesis
      using eq by (simp add: removeUnobservedCachesAsync_def Let_def foldl_store_delete)
  qed
qed

subsection \<open>The three outcomes of a refresh\<close>

lemma refreshCacheData_producer_fails:
  assumes "dataProvider d (world s) (callContext (heap s a)) (lastArgs (heap s a)) = (Inl e, w1)"
  shows "refreshCacheData d a s =
     subjectError a e
       (s\<lparr>world := w1,
          trace := trace s @ [ProducerCall (callContext (heap s a)) (lastArgs (heap s a))]\<rparr>)"
  using assms by (simp add: refreshCacheData_def Let_def)

lemma refreshCacheData_store_fails:
  assumes "dataProvider d (world s) (callContext (heap s a)) (lastArgs (heap s a)) = (Inr v, w1)"
    and "now d w1 = (t, w2)"
    and "storeAsync d w2 (key (heap s a))
           \<lparr>data = v, maxAgeMS = maxAgeInMS d, createdAt = t\<rparr> = (Inl e, w3)"
  shows "refreshCacheData d a s =
     subjectError a e
       (s\<lparr>world := w3,
          trace := trace s @ [ProducerCall (callContext (heap s a)) (lastArgs (heap s a)),
             StorageStore (key (heap s a))
               \<lparr>data = v, maxAgeMS = maxAgeInMS d, createdAt = t\<rparr>]\<rparr>)"
  using assms by (simp add: refreshCacheData_def Let_def)

lemma refreshCacheData_succeeds:
  assumes "dataProvider d (world s) (callContext (heap s a)) (lastArgs (heap s a)) = (Inr v, w1)"
    and "now d w1 = (t, w2)"
    and "storeAsync d w2 (key (heap s a))
           \<lparr>data = v, maxAgeMS = maxAgeInMS d, createdAt = t\<rparr> = (Inr u, w3)"
  shows "refreshCacheData d a s =
     setCacheData a v
       (s\<lparr>world := w3,
          trace := trace s @ [ProducerCall (callContext (heap s a)) (lastArgs (heap s a)),
             StorageStore (key (heap s a))
               \<lparr>data = v, maxAgeMS = maxAgeInMS d, createdAt = t\<rparr>]\<rparr>)"
  using assms by (simp add: refreshCacheData_def Let_def)

lemma refreshCacheData_cases:
  obtains (producer_fails) e w1 where
      "dataProvider d (world s) (callContext (heap s a)) (lastArgs (heap s a)) = (Inl e, w1)"
  | (store_fails) v w1 t w2 e w3 where
      "dataProvider d (world s) (callContext (heap s a)) (lastArgs (heap s a)) = (Inr v, w1)"
      "now d w1 = (t, w2)"
      "storeAsync d w2 (key (heap s a))
         \<lparr>data = v, maxAgeMS = maxAgeInMS d, createdAt = t\<rparr> = (Inl e, w3)"
  | (succeeds) v w1 t w2 u w3 where
      "dataProvider d (world s) (callContext (heap s a)) (lastArgs (heap s a)) = (Inr v, w1)"
      "now d w1 = (t, w2)"
      "storeAsync d w2 (key (heap s a))
         \<lparr>data = v, maxAgeMS = maxAgeInMS d, createdAt = t\<rparr> = (Inr u, w3)"
proof -
  obtain r w1 where p:
    "dataProvider d (world s) (callContext (heap s a)) (lastArgs (heap s a)) = (r, w1)"
    by (cases "dataProvider d (world s) (callContext (heap s a)) (lastArgs (heap s a))")
  show thesis
  proof (cases r)
    case (Inl e)
    with p producer_fails show ?thesis by simp
  next
    case (Inr v)
    obtain t w2 where n: "now d w1 = (t, w2)" by (cases "now d w1")
    obtain r2 w3 where st:
      "storeAsync d w2 (key (heap s a))
         \<lparr>data = v, maxAgeMS = maxAgeInMS d, createdAt = t\<rparr> = (r2, w3)"
      by (cases "storeAsync d w2 (key (heap s a))
                   \<lparr>data = v, maxAgeMS = maxAgeInMS d, createdAt = t\<rparr>")
    show ?thesis
    proof (cases r2)
      case (Inl e)
      with p Inr n st store_fails show ?thesis by simp
    next
      case (Inr u)
      with p \<open>r = Inr v\<close> n st succeeds show ?thesis by simp
    qed
  qed
qed

text \<open>What any run of the pipeline does to the state.\<close>

lemma refreshCacheData_shape:
  "\<exists>w' evs sub'.
     refreshCacheData d a s =
       s\<lparr>world := w', trace := trace s @ evs,
         heap := (heap s)(a := (heap s a)\<lparr>subject := sub',
                   initialized := (initialized (heap s a) \<or> nextCalledOn a evs)\<rparr>)\<rparr>
     \<and> producerCalls evs = [(callContext (heap s a), lastArgs (heap s a))]
     \<and> (\<forall>b. b \<noteq> a \<longrightarrow> \<not> nextCalledOn b evs)
     \<and> (\<forall>kc \<in> set (storageWrites evs). maxAgeMS (snd kc) = maxAgeInMS d)
     \<and> (\<forall>k. StorageGet k \<notin> set evs)"
proof (rule refreshCacheData_cases[of d s a])
  fix e w1
  assume "dataProvider d (world s) (callContext (heap s a)) (lastArgs (heap s a)) = (Inl e, w1)"
  then have "refreshCacheData d a s = s\<lparr>world := w1,
      trace := trace s @ (ProducerCall (callContext (heap s a)) (lastArgs (heap s a)) # SubjectError a e #
         map (\<lambda>(sid, n). Deliver sid n) (snd (error_RS e (subject (heap s a))))),
      heap := (heap s)(a := (heap s a)\<lparr>subject := fst (error_RS e (subject (heap s a))),
         initialized := (initialized (heap s a) \<or> nextCalledOn a
           (ProducerCall (callContext (heap s a)) (lastArgs (heap s a)) # SubjectError a e #
         map (\<lambda>(sid, n). Deliver sid n) (snd (error_RS e (subject (heap s a))))))\<rparr>)\<rparr>"
    by (simp add: refreshCacheData_producer_fails subjectError_shape)
  moreover have "producerCalls (ProducerCall (callContext (heap s a)) (lastArgs (heap s a)) # SubjectError a e #
         map (\<lambda>(sid, n). Deliver sid n) (snd (error_RS e (subject (heap s a)))))
       = [(callContext (heap s a), lastArgs (heap s a))]" by simp
  moreover have "\<forall>b. b \<noteq> a \<longrightarrow> \<not> nextCalledOn b (ProducerCall (callContext (heap s a)) (lastArgs (heap s a)) # SubjectError a e #
         map (\<lambda>(sid, n). Deliver sid n) (snd (error_RS e (subject (heap s a)))))" by simp
  moreover have "\<forall>kc \<in> set (storageWrites (ProducerCall (callContext (heap s a)) (lastArgs (heap s a)) # SubjectError a e #
         map (\<lambda>(sid, n). Deliver sid n) (snd (error_RS e (subject (heap s a)))))). maxAgeMS (snd kc) = maxAgeInMS d" by simp
  moreover have "\<forall>k. StorageGet k \<notin> set (ProducerCall (callContext (heap s a)) (lastArgs (heap s a)) # SubjectError a e #
         map (\<lambda>(sid, n). Deliver sid n) (snd (error_RS e (subject (heap s a)))))" by auto
  ultimately show ?thesis by blast
next
  fix v w1 t w2 e w3
  assume "dataProvider d (world s) (callContext (heap s a)) (lastArgs (heap s a)) = (Inr v, w1)"
    "now d w1 = (t, w2)"
    "storeAsync d w2 (key (heap s a)) \<lparr>data = v, maxAgeMS = maxAgeInMS d, createdAt = t\<rparr> = (Inl e, w3)"
  let ?evs = "ProducerCall (callContext (heap s a)) (lastArgs (heap s a)) #
         StorageStore (key (heap s a)) \<lparr>data = v, maxAgeMS = maxAgeInMS d, createdAt = t\<rparr> #
         SubjectError a e #
         map (\<lambda>(sid, n). Deliver sid n) (snd (error_RS e (subject (heap s a))))"
  from \<open>dataProvider d _ _ _ = _\<close> \<open>now d w1 = _\<close> \<open>storeAsync d w2 _ _ = _\<close>
  have "refreshCacheData d a s = s\<lparr>world := w3,
      trace := trace s @ ?evs,
      heap := (heap s)(a := (heap s a)\<lparr>subject := fst (error_RS e (subject (heap s a))),
         initialized := (initialized (heap s a) \<or> nextCalledOn a ?evs)\<rparr>)\<rparr>"
    by (simp add: refreshCacheData_store_fails subjectError_shape)
  moreover have "producerCalls ?evs = [(callContext (heap s a), lastArgs (heap s a))]" by simp
  moreover have "\<forall>b. b \<noteq> a \<longrightarrow> \<not> nextCalledOn b ?evs" by simp
  moreover have "\<forall>kc \<in> set (storageWrites ?evs). maxAgeMS (snd kc) = maxAgeInMS d" by simp
  moreover have "\<forall>k. StorageGet k \<notin> set ?evs" by auto
  ultimately show ?thesis by blast
next
  fix v w1 t w2 u w3
  assume "dataProvider d (world s) (callContext (heap s a)) (lastArgs (heap s a)) = (Inr v, w1)"
    "now d w1 = (t, w2)"
    "storeAsync d w2 (key (heap s a)) \<lparr>data = v, maxAgeMS = maxAgeInMS d, createdAt = t\<rparr> = (Inr u, w3)"
  let ?evs = "ProducerCall (callContext (heap s a)) (lastArgs (heap s a)) #
         StorageStore (key (heap s a)) \<lparr>data = v, maxAgeMS = maxAgeInMS d, createdAt = t\<rparr> #
         SubjectNext a v #
         map (\<lambda>(sid, n). Deliver sid n) (snd (next_RS v (subject (heap s a))))"
  from \<open>dataProvider d _ _ _ = _\<close> \<open>now d w1 = _\<close> \<open>storeAsync d w2 _ _ = _\<close>
  have "refreshCacheData d a s = s\<lparr>world := w3,
      trace := trace s @ ?evs,
      heap := (heap s)(a := (heap s a)\<lparr>subject := fst (next_RS v (subject (heap s a))),
         initialized := (initialized (heap s a) \<or> nextCalledOn a ?evs)\<rparr>)\<rparr>"
    by (simp add: refreshCacheData_succeeds setCacheData_shape)
  moreover have "producerCalls ?evs = [(callContext (heap s a), lastArgs (heap s a))]" by simp
  moreover have "\<forall>b. b \<noteq> a \<longrightarrow> \<not> nextCalledOn b ?evs" by simp
  moreover have "\<forall>kc \<in> set (storageWrites ?evs). maxAgeMS (snd kc) = maxAgeInMS d" by simp
  moreover have "\<forall>k. StorageGet k \<notin> set ?evs" by auto
  ultimately show ?thesis by blast
qed

section \<open>The refresh pipeline\<close>

text \<open>
  Claim C2. A run of the refresh pipeline in which the producer returns a value \<open>v\<close> and
  the store accepts the write does, in this order: one call of the producer, one write to
  the durable store of the record \<open>{data = v, maxAgeMS = the manager's max-age,
  createdAt = now()}\<close> under the entry's key, then \<open>next(v)\<close> on the entry's subject (with
  what that delivers to the observers); nothing else is added to the trace, and
  afterwards the entry is marked initialized.
\<close>

theorem refresh_success_persists_then_publishes:
  assumes "dataProvider d (world s) (callContext (heap s a)) (lastArgs (heap s a)) = (Inr v, w1)"
    and "now d w1 = (t, w2)"
    and "storeAsync d w2 (key (heap s a))
           \<lparr>data = v, maxAgeMS = maxAgeInMS d, createdAt = t\<rparr> = (Inr u, w3)"
  shows "trace (refreshCacheData d a s) =
           trace s @
           [ProducerCall (callContext (heap s a)) (lastArgs (heap s a)),
            StorageStore (key (heap s a)) \<lparr>data = v, maxAgeMS = maxAgeInMS d, createdAt = t\<rparr>,
            SubjectNext a v] @
           map (\<lambda>(sid, n). Deliver sid n) (snd (next_RS v (subject (heap s a))))
         \<and> subject (heap (refreshCacheData d a s) a) = fst (next_RS v (subject (heap s a)))
         \<and> initialized (heap (refreshCacheData d a s) a)
         \<and> world (refreshCacheData d a s) = w3"
  by (simp add: refreshCacheData_succeeds[OF assms] setCacheData_shape)

theorem refresh_success_persists_then_publishes_witness:
  "trace (refreshCacheData exDeps 0
            (exWith (new_ReplaySubject\<lparr>observers := [3]\<rparr>) False exWorld)) =
     [ProducerCall ''svc'' [1],
      StorageStore ''A'' \<lparr>data = 7, maxAgeMS = 1000, createdAt = 0\<rparr>,
      SubjectNext 0 7,
      Deliver 3 (NextN 7)]
   \<and> initialized (heap (refreshCacheData exDeps 0
                           (exWith (new_ReplaySubject\<lparr>observers := [3]\<rparr>) False exWorld)) 0)"
proof -
  let ?s = "exWith (new_ReplaySubject\<lparr>observers := [3]\<rparr>) False exWorld"
  have p: "dataProvider exDeps (world ?s) (callContext (heap ?s 0)) (lastArgs (heap ?s 0))
             = (Inr 7, exWorld\<lparr>produced := 8\<rparr>)"
    by (simp add: exDeps_def exWith_def exWorld_def exCache_def)
  have n: "now exDeps (exWorld\<lparr>produced := 8\<rparr>) = (0, exWorld\<lparr>produced := 8\<rparr>)"
    by (simp add: exDeps_def exWorld_def)
  have st: "storeAsync exDeps (exWorld\<lparr>produced := 8\<rparr>) (key (heap ?s 0))
             \<lparr>data = 7, maxAgeMS = maxAgeInMS exDeps, createdAt = 0\<rparr>
           = (Inr (), exWorld\<lparr>produced := 8,
                stored := [(''A'', \<lparr>data = 7, maxAgeMS = 1000, createdAt = 0\<rparr>)]\<rparr>)"
    by (simp add: exDeps_def exWith_def exWorld_def exCache_def)
  from refresh_success_persists_then_publishes[OF p n st] show ?thesis
    by (simp add: exDeps_def exWith_def exCache_def next_RS_def trimBuffer_def
        new_ReplaySubject_def)
qed

lemma subjectError_effect:
  "trace (subjectError a e s) =
     trace s @ SubjectError a e #
       (if isStopped (subject (heap s a)) then []
        else map (\<lambda>ob. Deliver ob (ErrorN e)) (observers (subject (heap s a))))"
  "isStopped (subject (heap (subjectError a e s) a))"
  "thrownError (subject (heap (subjectError a e s) a)) =
     (if isStopped (subject (heap s a)) then thrownError (subject (heap s a)) else Some e)"
  "buffer (subject (heap (subjectError a e s) a)) = buffer (subject (heap s a))"
  "initialized (heap (subjectError a e s) a) = initialized (heap s a)"
  by (simp_all add: subjectError_shape error_RS_eq comp_def)

text \<open>
  Claim C3, as the code has it. A run of the refresh pipeline in which the producer fails,
  or the producer returns a value and the write to the durable store fails, calls
  \<open>error(e)\<close> on the entry's subject with that error and never \<open>next\<close>: the trace gains the
  producer call, in the second case the attempted write, the call of \<open>error\<close> and the
  error notifications of the observers, and nothing else; in the first case there is no
  write. Afterwards the subject is stopped. A subject that was live before is stopped with
  the error \<open>e\<close>; a subject that an earlier failure had stopped keeps the earlier error and
  notifies nobody. The buffer and the initialized flag are untouched.
\<close>

theorem refresh_failure_fails_channel:
  "(dataProvider d (world s) (callContext (heap s a)) (lastArgs (heap s a)) = (Inl e, w1) \<longrightarrow>
      trace (refreshCacheData d a s) =
        trace s @
        [ProducerCall (callContext (heap s a)) (lastArgs (heap s a)), SubjectError a e] @
        (if isStopped (subject (heap s a)) then []
         else map (\<lambda>ob. Deliver ob (ErrorN e)) (observers (subject (heap s a))))
      \<and> isStopped (subject (heap (refreshCacheData d a s) a))
      \<and> thrownError (subject (heap (refreshCacheData d a s) a)) =
          (if isStopped (subject (heap s a)) then thrownError (subject (heap s a)) else Some e)
      \<and> buffer (subject (heap (refreshCacheData d a s) a)) = buffer (subject (heap s a))
      \<and> initialized (heap (refreshCacheData d a s) a) = initialized (heap s a))
   \<and>
   (dataProvider d (world s) (callContext (heap s a)) (lastArgs (heap s a)) = (Inr v, w1') \<and>
    now d w1' = (t, w2) \<and>
    storeAsync d w2 (key (heap s a)) \<lparr>data = v, maxAgeMS = maxAgeInMS d, createdAt = t\<rparr>
      = (Inl e, w3) \<longrightarrow>
      trace (refreshCacheData d a s) =
        trace s @
        [ProducerCall (callContext (heap s a)) (lastArgs (heap s a)),
         StorageStore (key (heap s a)) \<lparr>data = v, maxAgeMS = maxAgeInMS d, createdAt = t\<rparr>,
         SubjectError a e] @
        (if isStopped (subject (heap s a)) then []
         else map (\<lambda>ob. Deliver ob (ErrorN e)) (observers (subject (heap s a))))
      \<and> isStopped (subject (heap (refreshCacheData d a s) a))
      \<and> thrownError (subject (heap (refreshCacheData d a s) a)) =
          (if isStopped (subject (heap s a)) then thrownError (subject (heap s a)) else Some e)
      \<and> buffer (subject (heap (refreshCacheData d a s) a)) = buffer (subject (heap s a))
      \<and> initialized (heap (refreshCacheData d a s) a) = initialized (heap s a))"
proof (intro conjI impI)
  assume p: "dataProvider d (world s) (callContext (heap s a)) (lastArgs (heap s a)) = (Inl e, w1)"
  let ?s1 = "s\<lparr>world := w1,
          trace := trace s @ [ProducerCall (callContext (heap s a)) (lastArgs (heap s a))]\<rparr>"
  have eq: "refreshCacheData d a s = subjectError a e ?s1"
    by (rule refreshCacheData_producer_fails[OF p])
  show "trace (refreshCacheData d a s) =
        trace s @
        [ProducerCall (callContext (heap s a)) (lastArgs (heap s a)), SubjectError a e] @
        (if isStopped (subject (heap s a)) then []
         else map (\<lambda>ob. Deliver ob (ErrorN e)) (observers (subject (heap s a))))"
    unfolding eq by (simp add: subjectError_effect(1))
  show "isStopped (subject (heap (refreshCacheData d a s) a))"
    unfolding eq by (rule subjectError_effect(2))
  show "thrownError (subject (heap (refreshCacheData d a s) a)) =
          (if isStopped (subject (heap s a)) then thrownError (subject (heap s a)) else Some e)"
    unfolding eq by (simp add: subjectError_effect(3))
  show "buffer (subject (heap (refreshCacheData d a s) a)) = buffer (subject (heap s a))"
    unfolding eq by (simp add: subjectError_effect(4))
  show "initialized (heap (refreshCacheData d a s) a) = initialized (heap s a)"
    unfolding eq by (simp add: subjectError_effect(5))
next
  assume h: "dataProvider d (world s) (callContext (heap s a)) (lastArgs (heap s a)) = (Inr v, w1') \<and>
    now d w1' = (t, w2) \<and>
    storeAsync d w2 (key (heap s a)) \<lparr>data = v, maxAgeMS = maxAgeInMS d, createdAt = t\<rparr>
      = (Inl e, w3)"
  let ?s2 = "s\<lparr>world := w3,
          trace := trace s @ [ProducerCall (callContext (heap s a)) (lastArgs (heap s a)),
             StorageStore (key (heap s a))
               \<lparr>data = v, maxAgeMS = maxAgeInMS d, createdAt = t\<rparr>]\<rparr>"
  have eq: "refreshCacheData d a s = subjectError a e ?s2"
    using h by (intro refreshCacheData_store_fails) auto
  show "trace (refreshCacheData d a s) =
        trace s @
        [ProducerCall (callContext (heap s a)) (lastArgs (heap s a)),
         StorageStore (key (heap s a)) \<lparr>data = v, maxAgeMS = maxAgeInMS d, createdAt = t\<rparr>,
         SubjectError a e] @
        (if isStopped (subject (heap s a)) then []
         else map (\<lambda>ob. Deliver ob (ErrorN e)) (observers (subject (heap s a))))"
    unfolding eq by (simp add: subjectError_effect(1))
  show "isStopped (subject (heap (refreshCacheData d a s) a))"
    unfolding eq by (rule subjectError_effect(2))
  show "thrownError (subject (heap (refreshCacheData d a s) a)) =
          (if isStopped (subject (heap s a)) then thrownError (subject (heap s a)) else Some e)"
    unfolding eq by (simp add: subjectError_effect(3))
  show "buffer (subject (heap (refreshCacheData d a s) a)) = buffer (subject (heap s a))"
    unfolding eq by (simp add: subjectError_effect(4))
  show "initialized (heap (refreshCacheData d a s) a) = initialized (heap s a)"
    unfolding eq by (simp add: subjectError_effect(5))
qed

theorem refresh_failure_fails_channel_witness:
  "trace (refreshCacheData exDeps 0
      (exWith (new_ReplaySubject\<lparr>observers := [3]\<rparr>) False (exWorld\<lparr>producerFails := True\<rparr>)))
     = [ProducerCall ''svc'' [1], SubjectError 0 ''producer failed'',
        Deliver 3 (ErrorN ''producer failed'')]
   \<and> thrownError (subject (heap (refreshCacheData exDeps 0
      (exWith (new_ReplaySubject\<lparr>observers := [3]\<rparr>) False (exWorld\<lparr>producerFails := True\<rparr>))) 0))
     = Some ''producer failed''
   \<and> trace (refreshCacheData exDeps 0
      (exWith (new_ReplaySubject\<lparr>observers := [3]\<rparr>) False (exWorld\<lparr>storeFails := True\<rparr>)))
     = [ProducerCall ''svc'' [1],
        StorageStore ''A'' \<lparr>data = 7, maxAgeMS = 1000, createdAt = 0\<rparr>,
        SubjectError 0 ''store failed'', Deliver 3 (ErrorN ''store failed'')]
   \<and> thrownError (subject (heap (refreshCacheData exDeps 0
      (exWith (new_ReplaySubject\<lparr>observers := [3]\<rparr>) False (exWorld\<lparr>storeFails := True\<rparr>))) 0))
     = Some ''store failed''"
proof -
  let ?sp = "exWith (new_ReplaySubject\<lparr>observers := [3]\<rparr>) False (exWorld\<lparr>producerFails := True\<rparr>)"
  let ?ss = "exWith (new_ReplaySubject\<lparr>observers := [3]\<rparr>) False (exWorld\<lparr>storeFails := True\<rparr>)"
  have p: "dataProvider exDeps (world ?sp) (callContext (heap ?sp 0)) (lastArgs (heap ?sp 0))
             = (Inl ''producer failed'', exWorld\<lparr>producerFails := True\<rparr>)"
    by (simp add: exDeps_def exWith_def exWorld_def exCache_def)
  have q: "dataProvider exDeps (world ?ss) (callContext (heap ?ss 0)) (lastArgs (heap ?ss 0))
             = (Inr 7, exWorld\<lparr>storeFails := True, produced := 8\<rparr>) \<and>
           now exDeps (exWorld\<lparr>storeFails := True, produced := 8\<rparr>)
             = (0, exWorld\<lparr>storeFails := True, produced := 8\<rparr>) \<and>
           storeAsync exDeps (exWorld\<lparr>storeFails := True, produced := 8\<rparr>) (key (heap ?ss 0))
             \<lparr>data = 7, maxAgeMS = maxAgeInMS exDeps, createdAt = 0\<rparr>
             = (Inl ''store failed'', exWorld\<lparr>storeFails := True, produced := 8\<rparr>)"
    by (simp add: exDeps_def exWith_def exWorld_def exCache_def)
  from refresh_failure_fails_channel[where d = exDeps and s = ?sp and a = 0
        and e = "''producer failed''" and ?w1.0 = "exWorld\<lparr>producerFails := True\<rparr>"] p
  have 1: "trace (refreshCacheData exDeps 0 ?sp)
     = [ProducerCall ''svc'' [1], SubjectError 0 ''producer failed'',
        Deliver 3 (ErrorN ''producer failed'')]
     \<and> thrownError (subject (heap (refreshCacheData exDeps 0 ?sp) 0)) = Some ''producer failed''"
    by (simp add: exWith_def exCache_def new_ReplaySubject_def)
  from refresh_failure_fails_channel[where d = exDeps and s = ?ss and a = 0
        and e = "''store failed''" and v = 7 and t = 0
        and w1' = "exWorld\<lparr>storeFails := True, produced := 8\<rparr>"
        and ?w2.0 = "exWorld\<lparr>storeFails := True, produced := 8\<rparr>"
        and ?w3.0 = "exWorld\<lparr>storeFails := True, produced := 8\<rparr>"] q
  have 2: "trace (refreshCacheData exDeps 0 ?ss)
     = [ProducerCall ''svc'' [1],
        StorageStore ''A'' \<lparr>data = 7, maxAgeMS = 1000, createdAt = 0\<rparr>,
        SubjectError 0 ''store failed'', Deliver 3 (ErrorN ''store failed'')]
     \<and> thrownError (subject (heap (refreshCacheData exDeps 0 ?ss) 0)) = Some ''store failed''"
    by (simp add: exWith_def exCache_def new_ReplaySubject_def exDeps_def)
  from 1 2 show ?thesis by simp
qed

text \<open>
  The claim as the specification words it has the subject terminated with the error of
  the failing run, in every such run. An entry whose first refresh failed stays in the
  store, and the next read of its key runs the pipeline on it again. Here the producer
  fails in the first run and the write fails in the second: \<open>error\<close> is called with the
  second error, and the subject keeps the first, which is also what a later subscriber
  receives.
\<close>

theorem refresh_failure_keeps_first_error_counterexample:
  "thrownError (subject (heap (run exFlaky [Read ''A'' [1] ''svc'']
       (new_LocalCacheManager (exCache []) (exWorld\<lparr>storeFails := True\<rparr>))) 0))
     = Some ''producer failed''
   \<and> newEvents
        (run exFlaky [Read ''A'' [1] ''svc'']
           (new_LocalCacheManager (exCache []) (exWorld\<lparr>storeFails := True\<rparr>)))
        (refreshCacheData exFlaky 0
           (run exFlaky [Read ''A'' [1] ''svc'']
              (new_LocalCacheManager (exCache []) (exWorld\<lparr>storeFails := True\<rparr>))))
     = [ProducerCall ''svc'' [1],
        StorageStore ''A'' \<lparr>data = 8, maxAgeMS = 1000, createdAt = 0\<rparr>,
        SubjectError 0 ''store failed'']
   \<and> thrownError (subject (heap (refreshCacheData exFlaky 0
           (run exFlaky [Read ''A'' [1] ''svc'']
              (new_LocalCacheManager (exCache []) (exWorld\<lparr>storeFails := True\<rparr>)))) 0))
     = Some ''producer failed''
   \<and> snd (subscribe_RS 9 (subject (heap (refreshCacheData exFlaky 0
           (run exFlaky [Read ''A'' [1] ''svc'']
              (new_LocalCacheManager (exCache []) (exWorld\<lparr>storeFails := True\<rparr>)))) 0)))
     = [(9, ErrorN ''producer failed'')]
   \<and> trace (run exFlaky [Read ''A'' [1] ''svc'', Read ''A'' [1] ''svc'']
        (new_LocalCacheManager (exCache []) (exWorld\<lparr>storeFails := True\<rparr>)))
     = [StorageGet ''A'', ProducerCall ''svc'' [1], SubjectError 0 ''producer failed'',
        StorageGet ''A'', ProducerCall ''svc'' [1],
        StorageStore ''A'' \<lparr>data = 8, maxAgeMS = 1000, createdAt = 0\<rparr>,
        SubjectError 0 ''store failed'']
   \<and> thrownError (subject (heap (run exFlaky [Read ''A'' [1] ''svc'', Read ''A'' [1] ''svc'']
        (new_LocalCacheManager (exCache []) (exWorld\<lparr>storeFails := True\<rparr>))) 0))
     = Some ''producer failed''"
  by (simp add: exRun)

section \<open>The staleness check\<close>

lemma staleness_read_fails:
  assumes "getAsync d (world s) k = (Inl e, w1)"
  shows "refreshCacheIfOutOfDataAsync d k a s =
           (Inl e, s\<lparr>world := w1, trace := trace s @ [StorageGet k]\<rparr>)"
  using assms by (simp add: refreshCacheIfOutOfDataAsync_def Let_def)

lemma staleness_no_record:
  assumes "getAsync d (world s) k = (Inr None, w1)"
  shows "refreshCacheIfOutOfDataAsync d k a s =
           (Inr (), refreshCacheData d a (s\<lparr>world := w1, trace := trace s @ [StorageGet k]\<rparr>))"
  using assms by (simp add: refreshCacheIfOutOfDataAsync_def Let_def)

lemma staleness_outdated:
  assumes "getAsync d (world s) k = (Inr (Some cd), w1)" and "now d w1 = (t, w2)"
    and "createdAt cd + maxAgeMS cd \<le> t"
  shows "refreshCacheIfOutOfDataAsync d k a s =
           (Inr (), refreshCacheData d a (s\<lparr>trace := trace s @ [StorageGet k], world := w2\<rparr>))"
  using assms by (simp add: refreshCacheIfOutOfDataAsync_def Let_def isCacheOutdated_def)

lemma staleness_fresh_uninitialized:
  assumes "getAsync d (world s) k = (Inr (Some cd), w1)" and "now d w1 = (t, w2)"
    and "t < createdAt cd + maxAgeMS cd" and "\<not> initialized (heap s a)"
  shows "refreshCacheIfOutOfDataAsync d k a s =
           (Inr (), setCacheData a (data cd) (s\<lparr>trace := trace s @ [StorageGet k], world := w2\<rparr>))"
  using assms by (simp add: refreshCacheIfOutOfDataAsync_def Let_def isCacheOutdated_def)

lemma staleness_fresh_initialized:
  assumes "getAsync d (world s) k = (Inr (Some cd), w1)" and "now d w1 = (t, w2)"
    and "t < createdAt cd + maxAgeMS cd" and "initialized (heap s a)"
  shows "refreshCacheIfOutOfDataAsync d k a s =
           (Inr (), s\<lparr>trace := trace s @ [StorageGet k], world := w2\<rparr>)"
  using assms by (simp add: refreshCacheIfOutOfDataAsync_def Let_def isCacheOutdated_def)

lemma refreshCacheData_producerCalls:
  assumes "trace s1 = trace s0 @ evs0"
  shows "producerCalls (newEvents s0 (refreshCacheData d a s1))
     = producerCalls evs0 @ [(callContext (heap s1 a), lastArgs (heap s1 a))]"
proof -
  obtain w' evs sub' where
    eq: "refreshCacheData d a s1 =
       s1\<lparr>world := w', trace := trace s1 @ evs,
         heap := (heap s1)(a := (heap s1 a)\<lparr>subject := sub',
                   initialized := (initialized (heap s1 a) \<or> nextCalledOn a evs)\<rparr>)\<rparr>"
    and pc: "producerCalls evs = [(callContext (heap s1 a), lastArgs (heap s1 a))]"
    using refreshCacheData_shape[of d a s1] by blast
  have "trace (refreshCacheData d a s1) = trace s0 @ (evs0 @ evs)"
    by (simp add: eq assms)
  then have "newEvents s0 (refreshCacheData d a s1) = evs0 @ evs"
    by (rule newEvents_eq)
  with pc show ?thesis by simp
qed

lemma staleness_check_cases:
  assumes g: "getAsync d (world s) k = (r, w1)" and n: "now d w1 = (t, w2)"
  shows "(producerCalls (newEvents s (snd (refreshCacheIfOutOfDataAsync d k a s))) \<noteq> []
            \<longleftrightarrow> r = Inr None \<or> (\<exists>cd. r = Inr (Some cd) \<and> createdAt cd + maxAgeMS cd \<le> t))
       \<and> (r = Inr None \<longrightarrow>
            snd (refreshCacheIfOutOfDataAsync d k a s) =
              refreshCacheData d a (s\<lparr>world := w1, trace := trace s @ [StorageGet k]\<rparr>))
       \<and> (\<forall>cd. r = Inr (Some cd) \<and> createdAt cd + maxAgeMS cd \<le> t \<longrightarrow>
            snd (refreshCacheIfOutOfDataAsync d k a s) =
              refreshCacheData d a (s\<lparr>trace := trace s @ [StorageGet k], world := w2\<rparr>))
       \<and> (\<forall>cd. r = Inr (Some cd) \<and> t < createdAt cd + maxAgeMS cd \<and> \<not> initialized (heap s a) \<longrightarrow>
            newEvents s (snd (refreshCacheIfOutOfDataAsync d k a s)) =
              [StorageGet k, SubjectNext a (data cd)] @
              map (\<lambda>(sid, n). Deliver sid n) (snd (next_RS (data cd) (subject (heap s a))))
            \<and> subject (heap (snd (refreshCacheIfOutOfDataAsync d k a s)) a) =
                fst (next_RS (data cd) (subject (heap s a)))
            \<and> initialized (heap (snd (refreshCacheIfOutOfDataAsync d k a s)) a))"
proof -
  let ?s' = "snd (refreshCacheIfOutOfDataAsync d k a s)"
  have A: "r = Inr None \<Longrightarrow>
     ?s' = refreshCacheData d a (s\<lparr>world := w1, trace := trace s @ [StorageGet k]\<rparr>)"
    using g by (simp add: staleness_no_record)
  have B: "\<And>cd. r = Inr (Some cd) \<Longrightarrow> createdAt cd + maxAgeMS cd \<le> t \<Longrightarrow>
     ?s' = refreshCacheData d a (s\<lparr>trace := trace s @ [StorageGet k], world := w2\<rparr>)"
    using g n by (simp add: staleness_outdated)
  have C: "\<And>cd. r = Inr (Some cd) \<Longrightarrow> t < createdAt cd + maxAgeMS cd \<Longrightarrow> \<not> initialized (heap s a) \<Longrightarrow>
     ?s' = setCacheData a (data cd) (s\<lparr>trace := trace s @ [StorageGet k], world := w2\<rparr>)"
    using g n by (simp add: staleness_fresh_uninitialized)
  have D: "\<And>cd. r = Inr (Some cd) \<Longrightarrow> t < createdAt cd + maxAgeMS cd \<Longrightarrow> initialized (heap s a) \<Longrightarrow>
     ?s' = s\<lparr>trace := trace s @ [StorageGet k], world := w2\<rparr>"
    using g n by (simp add: staleness_fresh_initialized)
  have E: "\<And>e. r = Inl e \<Longrightarrow> ?s' = s\<lparr>world := w1, trace := trace s @ [StorageGet k]\<rparr>"
    using g by (simp add: staleness_read_fails)
  have iff: "(producerCalls (newEvents s ?s') \<noteq> [])
            \<longleftrightarrow> (r = Inr None \<or> (\<exists>cd. r = Inr (Some cd) \<and> createdAt cd + maxAgeMS cd \<le> t))"
  proof (cases r)
    case (Inl e)
    then show ?thesis using E[OF Inl] by (simp add: newEvents_def)
  next
    case (Inr cur)
    show ?thesis
    proof (cases cur)
      case None
      with Inr have "r = Inr None" by simp
      then show ?thesis using A
          refreshCacheData_producerCalls[of "s\<lparr>world := w1, trace := trace s @ [StorageGet k]\<rparr>"
            s "[StorageGet k]" d a]
        by simp
    next
      case (Some cd)
      with Inr have rc: "r = Inr (Some cd)" by simp
      show ?thesis
      proof (cases "createdAt cd + maxAgeMS cd \<le> t")
        case True
        then show ?thesis
          using rc B[OF rc True]
            refreshCacheData_producerCalls[of "s\<lparr>trace := trace s @ [StorageGet k], world := w2\<rparr>"
              s "[StorageGet k]" d a]
          by simp
      next
        case False
        then have lt: "t < createdAt cd + maxAgeMS cd" by simp
        show ?thesis
        proof (cases "initialized (heap s a)")
          case True
          then show ?thesis using rc lt D[OF rc lt True] by (simp add: newEvents_def)
        next
          case False
          then show ?thesis using rc lt C[OF rc lt False] by (simp add: setCacheData_shape newEvents_def)
        qed
      qed
    qed
  qed
  have fresh: "\<forall>cd. r = Inr (Some cd) \<and> t < createdAt cd + maxAgeMS cd \<and> \<not> initialized (heap s a) \<longrightarrow>
            newEvents s ?s' =
              [StorageGet k, SubjectNext a (data cd)] @
              map (\<lambda>(sid, n). Deliver sid n) (snd (next_RS (data cd) (subject (heap s a))))
            \<and> subject (heap ?s' a) = fst (next_RS (data cd) (subject (heap s a)))
            \<and> initialized (heap ?s' a)"
    using C by (simp add: setCacheData_shape newEvents_def)
  from iff A B fresh show ?thesis by blast
qed

text \<open>
  Claim C1. The staleness check that every read starts (\<open>getCache$\<close> calls
  \<open>_refreshCacheIfOutOfDataAsync\<close> for the key it was given) asks the durable store for
  the key's record and runs the refresh pipeline, and with it the producer, if and only
  if the store answered that there is no record, or answered with a record that is
  outdated at the clock's time \<open>t\<close>, that is \<open>createdAt + maxAgeMS \<le> t\<close>. When the record
  is not outdated and the entry is not initialized, the check calls \<open>next\<close> on the entry's
  subject with the stored payload and marks the entry initialized; the producer is not
  called on that path.
\<close>

theorem staleness_check_decides:
  assumes g: "getAsync d (world s) k = (r, w1)" and n: "now d w1 = (t, w2)"
  shows "(producerCalls (newEvents s (snd (refreshCacheIfOutOfDataAsync d k a s))) \<noteq> []
            \<longleftrightarrow> r = Inr None \<or> (\<exists>cd. r = Inr (Some cd) \<and> isCacheOutdated cd t))
       \<and> (\<forall>cd. r = Inr (Some cd) \<longrightarrow>
            isCacheOutdated cd t = (createdAt cd + maxAgeMS cd \<le> t))
       \<and> (r = Inr None \<longrightarrow>
            snd (refreshCacheIfOutOfDataAsync d k a s) =
              refreshCacheData d a (s\<lparr>world := w1, trace := trace s @ [StorageGet k]\<rparr>))
       \<and> (\<forall>cd. r = Inr (Some cd) \<and> isCacheOutdated cd t \<longrightarrow>
            snd (refreshCacheIfOutOfDataAsync d k a s) =
              refreshCacheData d a (s\<lparr>trace := trace s @ [StorageGet k], world := w2\<rparr>))
       \<and> (\<forall>cd. r = Inr (Some cd) \<and> \<not> isCacheOutdated cd t \<and> \<not> initialized (heap s a) \<longrightarrow>
            newEvents s (snd (refreshCacheIfOutOfDataAsync d k a s)) =
              [StorageGet k, SubjectNext a (data cd)] @
              map (\<lambda>(sid, n). Deliver sid n) (snd (next_RS (data cd) (subject (heap s a))))
            \<and> subject (heap (snd (refreshCacheIfOutOfDataAsync d k a s)) a) =
                fst (next_RS (data cd) (subject (heap s a)))
            \<and> initialized (heap (snd (refreshCacheIfOutOfDataAsync d k a s)) a))
       \<and> snd (getCache d k' args ctx s0) =
            snd (refreshCacheIfOutOfDataAsync d k' (fst (getCache_sync k' args ctx s0))
                   (snd (getCache_sync k' args ctx s0)))"
proof -
  note A = staleness_check_cases[OF g n, of a]
  have o: "\<And>cd::'v CacheData. isCacheOutdated cd t = (createdAt cd + maxAgeMS cd \<le> t)"
    by (simp add: isCacheOutdated_def)
  have no: "\<And>cd::'v CacheData. (\<not> createdAt cd + maxAgeMS cd \<le> t) = (t < createdAt cd + maxAgeMS cd)"
    by (simp add: not_le)
  have gc: "snd (getCache d k' args ctx s0) =
            snd (refreshCacheIfOutOfDataAsync d k' (fst (getCache_sync k' args ctx s0))
                   (snd (getCache_sync k' args ctx s0)))"
    by (simp add: getCache_def split_beta)
  show ?thesis unfolding o no using A gc by blast
qed

theorem staleness_check_decides_witness:
  "newEvents
     (exWith (new_ReplaySubject\<lparr>observers := [3]\<rparr>) False
        (exWorld\<lparr>clock := 500, stored := [(''A'', \<lparr>data = 42, maxAgeMS = 1000, createdAt = 0\<rparr>)]\<rparr>))
     (snd (refreshCacheIfOutOfDataAsync exDeps ''A'' 0
        (exWith (new_ReplaySubject\<lparr>observers := [3]\<rparr>) False
          (exWorld\<lparr>clock := 500, stored := [(''A'', \<lparr>data = 42, maxAgeMS = 1000, createdAt = 0\<rparr>)]\<rparr>))))
     = [StorageGet ''A'', SubjectNext 0 42, Deliver 3 (NextN 42)]
   \<and> producerCalls (newEvents
     (exWith new_ReplaySubject False
        (exWorld\<lparr>clock := 1000, stored := [(''A'', \<lparr>data = 42, maxAgeMS = 1000, createdAt = 0\<rparr>)]\<rparr>))
     (snd (refreshCacheIfOutOfDataAsync exDeps ''A'' 0
        (exWith new_ReplaySubject False
          (exWorld\<lparr>clock := 1000, stored := [(''A'', \<lparr>data = 42, maxAgeMS = 1000, createdAt = 0\<rparr>)]\<rparr>)))))
     \<noteq> []
   \<and> producerCalls (newEvents
     (exWith new_ReplaySubject False exWorld)
     (snd (refreshCacheIfOutOfDataAsync exDeps ''A'' 0 (exWith new_ReplaySubject False exWorld))))
     \<noteq> []"
proof -
  let ?rec = "\<lparr>data = 42::nat, maxAgeMS = 1000, createdAt = 0\<rparr>"
  let ?w1 = "exWorld\<lparr>clock := 500, stored := [(''A'', ?rec)]\<rparr>"
  let ?w2 = "exWorld\<lparr>clock := 1000, stored := [(''A'', ?rec)]\<rparr>"
  let ?s1 = "exWith (new_ReplaySubject\<lparr>observers := [3]\<rparr>) False ?w1"
  let ?s2 = "exWith new_ReplaySubject False ?w2"
  let ?s3 = "exWith new_ReplaySubject False exWorld"
  have g1: "getAsync exDeps (world ?s1) ''A'' = (Inr (Some ?rec), ?w1)"
    and n1: "now exDeps ?w1 = (500, ?w1)"
    by (simp_all add: exDeps_def exWith_def exWorld_def)
  have g2: "getAsync exDeps (world ?s2) ''A'' = (Inr (Some ?rec), ?w2)"
    and n2: "now exDeps ?w2 = (1000, ?w2)"
    by (simp_all add: exDeps_def exWith_def exWorld_def)
  have g3: "getAsync exDeps (world ?s3) ''A'' = (Inr None, exWorld)"
    and n3: "now exDeps exWorld = (0, exWorld)"
    by (simp_all add: exDeps_def exWith_def exWorld_def)
  have f1: "\<not> isCacheOutdated ?rec 500 \<and> \<not> initialized (heap ?s1 0)"
    by (simp add: isCacheOutdated_def exWith_def)
  have o2: "isCacheOutdated ?rec 1000"
    by (simp add: isCacheOutdated_def)
  have "newEvents ?s1 (snd (refreshCacheIfOutOfDataAsync exDeps ''A'' 0 ?s1)) =
          [StorageGet ''A'', SubjectNext 0 (data ?rec)] @
          map (\<lambda>(sid, n). Deliver sid n) (snd (next_RS (data ?rec) (subject (heap ?s1 0))))"
    using staleness_check_decides[OF g1 n1, of 0 "''A''" "[1]" "''svc''" ?s1] f1 by blast
  then have 1: "newEvents ?s1 (snd (refreshCacheIfOutOfDataAsync exDeps ''A'' 0 ?s1))
     = [StorageGet ''A'', SubjectNext 0 42, Deliver 3 (NextN 42)]"
    by (simp add: exWith_def exCache_def next_RS_def trimBuffer_def new_ReplaySubject_def)
  have 2: "producerCalls (newEvents ?s2 (snd (refreshCacheIfOutOfDataAsync exDeps ''A'' 0 ?s2))) \<noteq> []"
    using staleness_check_decides[OF g2 n2, of 0 "''A''" "[1]" "''svc''" ?s2, THEN conjunct1] o2
    by blast
  have 3: "producerCalls (newEvents ?s3 (snd (refreshCacheIfOutOfDataAsync exDeps ''A'' 0 ?s3))) \<noteq> []"
    using staleness_check_decides[OF g3 n3, of 0 "''A''" "[1]" "''svc''" ?s3, THEN conjunct1]
    by blast
  from 1 2 3 show ?thesis by simp
qed

section \<open>The entry store and the sweep\<close>

lemma keepsEntries_refl: "keepsEntries s s"
  by (simp add: keepsEntries_def)

lemma keepsEntries_trans: "keepsEntries s s' \<Longrightarrow> keepsEntries s' s'' \<Longrightarrow> keepsEntries s s''"
  by (simp add: keepsEntries_def)

lemma keepsEntries_world_trace: "keepsEntries s (s\<lparr>world := w, trace := tr\<rparr>)"
  "keepsEntries s (s\<lparr>trace := tr, world := w\<rparr>)"
  by (simp_all add: keepsEntries_def)

lemma keepsEntries_setCacheData: "keepsEntries s (setCacheData a v s)"
  by (simp add: keepsEntries_def setCacheData_shape)

lemma keepsEntries_subjectError: "keepsEntries s (subjectError a e s)"
  by (simp add: keepsEntries_def subjectError_shape)

lemma keepsEntries_refreshCacheData: "keepsEntries s (refreshCacheData d a s)"
proof -
  obtain w' evs sub' where
    eq: "refreshCacheData d a s =
       s\<lparr>world := w', trace := trace s @ evs,
         heap := (heap s)(a := (heap s a)\<lparr>subject := sub',
                   initialized := (initialized (heap s a) \<or> nextCalledOn a evs)\<rparr>)\<rparr>"
    using refreshCacheData_shape[of d a s] by blast
  show ?thesis unfolding eq by (simp add: keepsEntries_def)
qed

lemma keepsEntries_staleness: "keepsEntries s (snd (refreshCacheIfOutOfDataAsync d k a s))"
proof -
  obtain r w1 where g: "getAsync d (world s) k = (r, w1)" by (cases "getAsync d (world s) k")
  obtain t w2 where n: "now d w1 = (t, w2)" by (cases "now d w1")
  show ?thesis
  proof (cases r)
    case (Inl e)
    with g show ?thesis by (simp add: staleness_read_fails keepsEntries_world_trace)
  next
    case (Inr cur)
    show ?thesis
    proof (cases cur)
      case None
      with Inr g have "snd (refreshCacheIfOutOfDataAsync d k a s) =
          refreshCacheData d a (s\<lparr>world := w1, trace := trace s @ [StorageGet k]\<rparr>)"
        by (simp add: staleness_no_record)
      then show ?thesis
        using keepsEntries_trans[OF keepsEntries_world_trace(1) keepsEntries_refreshCacheData]
        by simp
    next
      case (Some cd)
      with Inr g have g': "getAsync d (world s) k = (Inr (Some cd), w1)" by simp
      consider (old) "createdAt cd + maxAgeMS cd \<le> t"
        | (fresh) "t < createdAt cd + maxAgeMS cd" "\<not> initialized (heap s a)"
        | (known) "t < createdAt cd + maxAgeMS cd" "initialized (heap s a)"
        by linarith
      then show ?thesis
      proof cases
        case old
        then show ?thesis
          using keepsEntries_trans[OF keepsEntries_world_trace(2) keepsEntries_refreshCacheData]
          by (simp add: staleness_outdated[OF g' n])
      next
        case fresh
        then show ?thesis
          using keepsEntries_trans[OF keepsEntries_world_trace(2) keepsEntries_setCacheData]
          by (simp add: staleness_fresh_uninitialized[OF g' n])
      next
        case known
        then show ?thesis
          by (simp add: staleness_fresh_initialized[OF g' n] keepsEntries_world_trace)
      qed
    qed
  qed
qed

subsection \<open>Refreshes in flight\<close>

lemma pipelineSteps_trans:
  "pipelineSteps d A s' s'' \<Longrightarrow> pipelineSteps d A s s' \<Longrightarrow> pipelineSteps d A s s''"
  by (induction rule: pipelineSteps.induct) (auto intro: pipelineSteps.intros)

lemma pipelineSteps_mono: "pipelineSteps d A s s' \<Longrightarrow> A \<subseteq> B \<Longrightarrow> pipelineSteps d B s s'"
  by (induction rule: pipelineSteps.induct) (auto intro: pipelineSteps.intros)

lemma keepsEntries_pipelineSteps: "pipelineSteps d A s s' \<Longrightarrow> keepsEntries s s'"
proof (induction rule: pipelineSteps.induct)
  case stepHere
  show ?case by (rule keepsEntries_refl)
next
  case stepCall
  from keepsEntries_trans[OF stepCall.IH keepsEntries_world_trace(1)] show ?case .
next
  case stepWrite
  from keepsEntries_trans[OF stepWrite.IH keepsEntries_world_trace(1)] show ?case .
next
  case stepFail
  from keepsEntries_trans[OF stepFail.IH keepsEntries_subjectError] show ?case .
next
  case stepPublish
  from keepsEntries_trans[OF stepPublish.IH keepsEntries_setCacheData] show ?case .
qed

lemma pipelineSteps_startRefresh: "pipelineSteps d A s (snd (startRefresh d a s))"
  by (simp add: startRefresh_def Let_def split_beta pipelineSteps.stepCall[OF pipelineSteps.stepHere])

lemma startRefresh_fields:
  "heap (snd (startRefresh d a s)) = heap s"
  "cacheStore (snd (startRefresh d a s)) = cacheStore s"
  "addrOf (fst (startRefresh d a s)) = Some a"
  by (simp_all add: startRefresh_def Let_def split_beta)

lemma addrOf_resumeRefresh: "addrOf (fst (resumeRefresh d p s)) = addrOf p"
  by (cases "(d, p, s)" rule: resumeRefresh.cases) (simp_all add: Let_def split_beta)

lemma pipelineSteps_resumeRefresh:
  assumes "\<And>a. addrOf p = Some a \<Longrightarrow> a \<in> A"
  shows "pipelineSteps d A s (snd (resumeRefresh d p s))"
  using assms
  by (cases "(d, p, s)" rule: resumeRefresh.cases)
     (simp_all add: Let_def split_beta pipelineSteps.intros)

lemma startIfPresent_steps:
  assumes "snd ` set (cacheStore s) \<subseteq> A"
  shows "pipelineSteps d A s (snd (startIfPresent d k s))"
    and "\<And>a. addrOf (fst (startIfPresent d k s)) = Some a \<Longrightarrow> a \<in> A"
    and "cacheStore (snd (startIfPresent d k s)) = cacheStore s"
proof -
  show "pipelineSteps d A s (snd (startIfPresent d k s))"
    by (simp add: startIfPresent_def pipelineSteps_startRefresh pipelineSteps.stepHere
        split: option.split)
  show "cacheStore (snd (startIfPresent d k s)) = cacheStore s"
    by (simp add: startIfPresent_def startRefresh_fields split: option.split)
  fix a assume a: "addrOf (fst (startIfPresent d k s)) = Some a"
  show "a \<in> A"
  proof (cases "map_of (cacheStore s) k")
    case None
    with a show ?thesis by (simp add: startIfPresent_def)
  next
    case (Some b)
    with a have "a = b" by (simp add: startIfPresent_def startRefresh_fields)
    moreover from Some have "(k, b) \<in> set (cacheStore s)" by (rule map_of_SomeD)
    ultimately show ?thesis using assms by force
  qed
qed

lemma startAll_steps:
  "snd ` set (cacheStore s) \<subseteq> A \<Longrightarrow>
   pipelineSteps d A s (snd (startAll d ks s)) \<and> pendingIn A (fst (startAll d ks s))"
proof (induction ks arbitrary: s)
  case Nil
  show ?case by (simp add: pipelineSteps.stepHere pendingIn_def)
next
  case (Cons k ks)
  let ?s1 = "snd (startIfPresent d k s)"
  note st = startIfPresent_steps[OF Cons.prems, of d k]
  have "snd ` set (cacheStore ?s1) \<subseteq> A" using Cons.prems st(3) by simp
  from Cons.IH[OF this] have ih: "pipelineSteps d A ?s1 (snd (startAll d ks ?s1))"
    "pendingIn A (fst (startAll d ks ?s1))" by simp_all
  from pipelineSteps_trans[OF ih(1) st(1)] ih(2) st(2) show ?case
    by (auto simp: split_beta pendingIn_def)
qed

lemma resumeAt_steps:
  assumes "pendingIn A ps"
  shows "pipelineSteps d A s (snd (resumeAt d i (ps, s))) \<and> pendingIn A (fst (resumeAt d i (ps, s)))"
proof (cases "i < length ps")
  case False
  with assms show ?thesis by (simp add: resumeAt_def pipelineSteps.stepHere)
next
  case True
  then have mem: "ps ! i \<in> set ps" by simp
  with assms have a: "\<And>a. addrOf (ps ! i) = Some a \<Longrightarrow> a \<in> A" by (simp add: pendingIn_def)
  have "pendingIn A (ps[i := fst (resumeRefresh d (ps ! i) s)])"
    unfolding pendingIn_def
  proof (intro ballI allI impI)
    fix p b assume p: "p \<in> set (ps[i := fst (resumeRefresh d (ps ! i) s)])" and b: "addrOf p = Some b"
    from p have "p = fst (resumeRefresh d (ps ! i) s) \<or> p \<in> set ps"
      using set_update_subset_insert by fastforce
    then show "b \<in> A"
    proof
      assume "p = fst (resumeRefresh d (ps ! i) s)"
      with b a show ?thesis by (simp add: addrOf_resumeRefresh)
    next
      assume "p \<in> set ps"
      with b assms show ?thesis by (simp add: pendingIn_def)
    qed
  qed
  with True pipelineSteps_resumeRefresh[of "ps ! i" A d s, OF a] show ?thesis
    by (simp add: resumeAt_def split_beta)
qed

lemma resumeAll_Cons:
  "resumeAll d (i # order) ps s =
     resumeAll d order (fst (resumeAt d i (ps, s))) (snd (resumeAt d i (ps, s)))"
  by (simp add: resumeAll_def)

lemma resumeAll_Nil: "resumeAll d [] ps s = (ps, s)"
  by (simp add: resumeAll_def)

lemma resumeAll_steps:
  "pendingIn A ps \<Longrightarrow>
   pipelineSteps d A s (snd (resumeAll d order ps s)) \<and> pendingIn A (fst (resumeAll d order ps s))"
proof (induction order arbitrary: ps s)
  case Nil
  then show ?case by (simp add: resumeAll_Nil pipelineSteps.stepHere)
next
  case (Cons i order)
  from resumeAt_steps[OF Cons.prems, of d s i]
  have 1: "pipelineSteps d A s (snd (resumeAt d i (ps, s)))"
    and 2: "pendingIn A (fst (resumeAt d i (ps, s)))" by simp_all
  from Cons.IH[OF 2, of "snd (resumeAt d i (ps, s))"] pipelineSteps_trans[OF _ 1]
  show ?case by (simp add: resumeAll_Cons)
qed

text \<open>The two outcomes of an invalidation, as states.\<close>

lemma invalidate_cases:
  obtains (rejected) w where
      "snd (invalidateAndUpdateAsync d cacheKey s) =
         (removeUnobservedCachesAsync None s)\<lparr>world := w,
            trace := trace s @ [StorageRemove
              (allToInvalidateAndUpdate d cacheKey (removeUnobservedCachesAsync None s))]\<rparr>"
  | (refreshed) w where
      "pipelineSteps d (snd ` set (cacheStore (removeUnobservedCachesAsync None s)))
         ((removeUnobservedCachesAsync None s)\<lparr>world := w,
            trace := trace s @ [StorageRemove
              (allToInvalidateAndUpdate d cacheKey (removeUnobservedCachesAsync None s))]\<rparr>)
         (snd (invalidateAndUpdateAsync d cacheKey s))"
proof -
  let ?s1 = "removeUnobservedCachesAsync None s"
  let ?ks = "allToInvalidateAndUpdate d cacheKey ?s1"
  obtain r w1 where rm: "removeAsync d (world ?s1) ?ks = (r, w1)"
    by (cases "removeAsync d (world ?s1) ?ks")
  let ?s2 = "?s1\<lparr>world := w1, trace := trace s @ [StorageRemove ?ks]\<rparr>"
  let ?A = "snd ` set (cacheStore ?s1)"
  show thesis
  proof (cases r)
    case (Inl e)
    with rm rejected[of w1] show ?thesis
      by (simp add: invalidateAndUpdateAsync_def Let_def sweep_fields)
  next
    case (Inr u)
    have sub: "snd ` set (cacheStore ?s2) \<subseteq> ?A" by simp
    let ?ps = "fst (startAll d ?ks ?s2)"
    let ?s3 = "snd (startAll d ?ks ?s2)"
    let ?order = "settleOrder d (world ?s3) @ [0..<length ?ps] @ [0..<length ?ps]"
    from startAll_steps[OF sub, of d ?ks]
    have 1: "pipelineSteps d ?A ?s2 ?s3" and 2: "pendingIn ?A ?ps" by simp_all
    from resumeAll_steps[OF 2, of d ?s3 ?order]
    have "pipelineSteps d ?A ?s3 (snd (resumeAll d ?order ?ps ?s3))" by simp
    from pipelineSteps_trans[OF this 1]
    have "pipelineSteps d ?A ?s2 (snd (resumeAll d ?order ?ps ?s3))" .
    moreover have "snd (invalidateAndUpdateAsync d cacheKey s) = snd (resumeAll d ?order ?ps ?s3)"
      using rm Inr by (simp add: invalidateAndUpdateAsync_def Let_def sweep_fields split_beta)
    ultimately show ?thesis using refreshed[of w1] by simp
  qed
qed

lemma invalidate_cacheStore:
  "cacheStore (snd (invalidateAndUpdateAsync d cacheKey s)) =
     cacheStore (removeUnobservedCachesAsync None s)"
proof (rule invalidate_cases[of d cacheKey s])
  fix w
  assume "snd (invalidateAndUpdateAsync d cacheKey s) =
         (removeUnobservedCachesAsync None s)\<lparr>world := w,
            trace := trace s @ [StorageRemove
              (allToInvalidateAndUpdate d cacheKey (removeUnobservedCachesAsync None s))]\<rparr>"
  then show ?thesis by simp
next
  fix w
  assume "pipelineSteps d (snd ` set (cacheStore (removeUnobservedCachesAsync None s)))
         ((removeUnobservedCachesAsync None s)\<lparr>world := w,
            trace := trace s @ [StorageRemove
              (allToInvalidateAndUpdate d cacheKey (removeUnobservedCachesAsync None s))]\<rparr>)
         (snd (invalidateAndUpdateAsync d cacheKey s))"
  from keepsEntries_pipelineSteps[OF this] show ?thesis by (simp add: keepsEntries_def)
qed

lemma getAndEnsureCache_present:
  "map_of (cacheStore s) k = Some a \<Longrightarrow> getAndEnsureCache k args ctx s = (a, s)"
  by (simp add: getAndEnsureCache_def)

lemma getAndEnsureCache_absent:
  "map_of (cacheStore s) k = None \<Longrightarrow>
   getAndEnsureCache k args ctx s =
     (nextAddr s,
      s\<lparr>heap := (heap s)(nextAddr s :=
             \<lparr>key = k, lastArgs = args, callContext = ctx, subject = new_ReplaySubject,
              initialized = False\<rparr>),
        nextAddr := Suc (nextAddr s),
        cacheStore := cacheStore s @ [(k, nextAddr s)]\<rparr>)"
  by (simp add: getAndEnsureCache_def Let_def)

lemma getAndEnsureCache_distinct:
  assumes "distinct (map fst (cacheStore s))"
  shows "distinct (map fst (cacheStore (snd (getAndEnsureCache k args ctx s))))"
proof (cases "map_of (cacheStore s) k")
  case None
  then have "k \<notin> fst ` set (cacheStore s)" by (simp add: map_of_eq_None_iff)
  with assms None show ?thesis by (simp add: getAndEnsureCache_absent)
next
  case (Some a)
  with assms show ?thesis by (simp add: getAndEnsureCache_present)
qed

lemma sweep_cacheStore:
  assumes "distinct (map fst (cacheStore s))"
  shows "cacheStore (removeUnobservedCachesAsync except s) =
     filter (\<lambda>(k, a). Some k = except \<or> observed (subject (heap s a))) (cacheStore s)"
  by (simp add: sweep_store[OF assms])

text \<open>
  Claim C5. In a store whose keys are distinct (as the keys of a \<open>Map\<close> are), the sweep
  with exception \<open>except\<close> keeps exactly the entries whose key is \<open>except\<close> or whose
  subject is observed, in their order, and changes nothing else of the state. A read of
  key \<open>k\<close> leaves the store as the sweep with exception \<open>k\<close> leaves it after the entry for
  \<open>k\<close> was found or made; an invalidation leaves the store as the sweep with no exception
  leaves it.
\<close>

theorem sweep_removes_exactly_unobserved:
  assumes "distinct (map fst (cacheStore s))"
  shows "removeUnobservedCachesAsync except s =
           s\<lparr>cacheStore :=
               filter (\<lambda>(k, a). Some k = except \<or> observed (subject (heap s a))) (cacheStore s)\<rparr>
       \<and> cacheStore (snd (getCache d k args ctx s)) =
           filter (\<lambda>(k', a). k' = k \<or> observed (subject (heap (snd (getAndEnsureCache k args ctx s)) a)))
             (cacheStore (snd (getAndEnsureCache k args ctx s)))
       \<and> cacheStore (snd (invalidateAndUpdateAsync d cacheKey s)) =
           filter (\<lambda>(k, a). observed (subject (heap s a))) (cacheStore s)"
proof (intro conjI)
  show "removeUnobservedCachesAsync except s =
           s\<lparr>cacheStore :=
               filter (\<lambda>(k, a). Some k = except \<or> observed (subject (heap s a))) (cacheStore s)\<rparr>"
    by (rule sweep_store[OF assms])
next
  let ?s1 = "snd (getAndEnsureCache k args ctx s)"
  let ?a = "fst (getAndEnsureCache k args ctx s)"
  have d1: "distinct (map fst (cacheStore ?s1))"
    by (rule getAndEnsureCache_distinct[OF assms])
  have "cacheStore (snd (getCache d k args ctx s)) = cacheStore (removeUnobservedCachesAsync (Some k) ?s1)"
    using keepsEntries_staleness[of "removeUnobservedCachesAsync (Some k) ?s1" d k ?a]
    by (simp add: getCache_def getCache_sync_def split_beta keepsEntries_def)
  then show "cacheStore (snd (getCache d k args ctx s)) =
           filter (\<lambda>(k', a). k' = k \<or> observed (subject (heap ?s1 a))) (cacheStore ?s1)"
    by (simp add: sweep_cacheStore[OF d1])
next
  show "cacheStore (snd (invalidateAndUpdateAsync d cacheKey s)) =
           filter (\<lambda>(k, a). observed (subject (heap s a))) (cacheStore s)"
    by (simp add: invalidate_cacheStore sweep_cacheStore[OF assms])
qed

theorem sweep_removes_exactly_unobserved_witness:
  "cacheStore (removeUnobservedCachesAsync (Some ''C'') exThree) = [(''A'', 0), (''C'', 2)]
   \<and> cacheStore (snd (getCache exDeps ''B'' [1] ''svc'' exThree)) = [(''A'', 0), (''B'', 1)]
   \<and> cacheStore (snd (invalidateAndUpdateAsync exDeps None exThree)) = [(''A'', 0)]"
proof -
  have dist: "distinct (map fst (cacheStore exThree))"
    by (simp add: exThree_def)
  have ens: "getAndEnsureCache ''B'' [1] ''svc'' exThree = (1, exThree)"
    by (simp add: getAndEnsureCache_def exThree_def)
  note T = sweep_removes_exactly_unobserved[OF dist, of "Some ''C''" exDeps "''B''" "[1]" "''svc''" None]
  have 1: "cacheStore (removeUnobservedCachesAsync (Some ''C'') exThree) = [(''A'', 0), (''C'', 2)]"
    unfolding T[THEN conjunct1]
    by (simp add: exThree_def exCache_def observed_def new_ReplaySubject_def)
  have 2: "cacheStore (snd (getCache exDeps ''B'' [1] ''svc'' exThree)) = [(''A'', 0), (''B'', 1)]"
    unfolding T[THEN conjunct2, THEN conjunct1] ens
    by (simp add: exThree_def exCache_def observed_def new_ReplaySubject_def)
  have 3: "cacheStore (snd (invalidateAndUpdateAsync exDeps None exThree)) = [(''A'', 0)]"
    unfolding T[THEN conjunct2, THEN conjunct2]
    by (simp add: exThree_def exCache_def observed_def new_ReplaySubject_def)
  from 1 2 3 show ?thesis by simp
qed

section \<open>Entries over sequences of operations\<close>

lemma sweep_subset:
  "set (cacheStore (removeUnobservedCachesAsync except s)) \<subseteq> set (cacheStore s)"
  by (auto simp: removeUnobservedCachesAsync_def Let_def foldl_store_delete)

lemma sweep_distinct:
  "distinct (map fst (cacheStore s)) \<Longrightarrow>
   distinct (map fst (cacheStore (removeUnobservedCachesAsync except s)))"
  by (simp add: sweep_store distinct_map_filter)

lemma subscribe_shape:
  "snd (subscribe a s) =
     s\<lparr>heap := (heap s)(a := (heap s a)\<lparr>subject := fst (subscribe_RS (nextSubscriber s) (subject (heap s a)))\<rparr>),
       nextSubscriber := Suc (nextSubscriber s),
       trace := trace s @ map (\<lambda>(sid, n). Deliver sid n)
                  (snd (subscribe_RS (nextSubscriber s) (subject (heap s a))))\<rparr>"
  by (simp add: subscribe_def Let_def split_beta)

lemma keepsEntries_subscribe: "keepsEntries s (snd (subscribe a s))"
  by (simp add: subscribe_shape keepsEntries_def)

lemma keepsEntries_unsubscribe: "keepsEntries s (unsubscribe a sid s)"
  by (simp add: unsubscribe_def Let_def keepsEntries_def)

lemma captured_keepsEntries: "keepsEntries s s' \<Longrightarrow> captured s s' b"
  by (simp add: keepsEntries_def captured_def)

lemma captured_trans: "captured s s' b \<Longrightarrow> captured s' s'' b \<Longrightarrow> captured s s'' b"
  by (simp add: captured_def)

lemma captured_sweep: "captured s (removeUnobservedCachesAsync except s) b"
  by (simp add: captured_def sweep_fields)

lemma captured_getAndEnsureCache:
  "b < nextAddr s \<Longrightarrow> captured s (snd (getAndEnsureCache k args ctx s)) b"
  by (cases "map_of (cacheStore s) k")
     (simp_all add: getAndEnsureCache_absent getAndEnsureCache_present captured_def)

lemma captured_getCache_sync:
  "b < nextAddr s \<Longrightarrow> captured s (snd (getCache_sync k args ctx s)) b"
  using captured_trans[OF captured_getAndEnsureCache captured_sweep]
  by (simp add: getCache_sync_def split_beta)

lemma captured_getCache:
  "b < nextAddr s \<Longrightarrow> captured s (snd (getCache d k args ctx s)) b"
  using captured_trans[OF captured_getCache_sync captured_keepsEntries[OF keepsEntries_staleness]]
  by (simp add: getCache_def split_beta)

lemma captured_invalidate: "captured s (snd (invalidateAndUpdateAsync d cacheKey s)) b"
proof -
  let ?s1 = "removeUnobservedCachesAsync None s"
  let ?ks = "allToInvalidateAndUpdate d cacheKey ?s1"
  have f: "\<And>w. captured s (?s1\<lparr>world := w, trace := trace s @ [StorageRemove ?ks]\<rparr>) b"
    by (simp add: captured_def sweep_fields)
  show ?thesis
  proof (rule invalidate_cases[of d cacheKey s])
    fix w
    assume "snd (invalidateAndUpdateAsync d cacheKey s) =
         (removeUnobservedCachesAsync None s)\<lparr>world := w,
            trace := trace s @ [StorageRemove
              (allToInvalidateAndUpdate d cacheKey (removeUnobservedCachesAsync None s))]\<rparr>"
    with f show ?thesis by simp
  next
    fix w
    assume "pipelineSteps d (snd ` set (cacheStore (removeUnobservedCachesAsync None s)))
         ((removeUnobservedCachesAsync None s)\<lparr>world := w,
            trace := trace s @ [StorageRemove
              (allToInvalidateAndUpdate d cacheKey (removeUnobservedCachesAsync None s))]\<rparr>)
         (snd (invalidateAndUpdateAsync d cacheKey s))"
    from captured_trans[OF f captured_keepsEntries[OF keepsEntries_pipelineSteps[OF this]]]
    show ?thesis .
  qed
qed

lemma captured_apply_op: "b < nextAddr s \<Longrightarrow> captured s (apply_op d s op) b"
proof (cases op)
  case (Read k args ctx)
  assume "b < nextAddr s"
  with Read show ?thesis by (simp add: captured_getCache)
next
  case (ReadPending k args ctx)
  assume "b < nextAddr s"
  with ReadPending show ?thesis by (simp add: captured_getCache_sync)
next
  case (StalenessCheck k a)
  then show ?thesis
    by (simp add: captured_keepsEntries keepsEntries_staleness keepsEntries_refl)
next
  case (Invalidate cacheKey)
  then show ?thesis by (simp add: captured_invalidate)
next
  case (Subscribe a)
  then show ?thesis
    by (simp add: captured_keepsEntries keepsEntries_subscribe keepsEntries_refl)
next
  case (Unsubscribe a sid)
  then show ?thesis
    by (simp add: captured_keepsEntries keepsEntries_unsubscribe keepsEntries_refl)
qed

lemma captured_run: "b < nextAddr s \<Longrightarrow> captured s (run d ops s) b"
proof (induction ops arbitrary: s)
  case Nil
  show ?case by (simp add: run_def captured_def)
next
  case (Cons op ops)
  have 1: "captured s (apply_op d s op) b" by (rule captured_apply_op[OF Cons.prems])
  then have "b < nextAddr (apply_op d s op)" using Cons.prems by (simp add: captured_def)
  from Cons.IH[OF this] have "captured (apply_op d s op) (run d ops (apply_op d s op)) b" .
  with 1 show ?case using captured_trans by (simp add: run_def) blast
qed

text \<open>
  Claim C4. \<open>_getAndEnsureCache\<close> for a key that the store maps to an entry returns that
  entry and changes nothing (the arguments and the context it was called with are
  dropped). For a key the store does not map, it makes a new entry at a fresh address
  with the given key, arguments and context, a new subject and \<open>initialized = false\<close>,
  and adds it to the store. The key, the arguments and the context of an allocated entry
  stay as they are over every sequence of operations, later reads of its key included.
\<close>

theorem getAndEnsureCache_returns_or_creates:
  "(map_of (cacheStore s) k = Some a \<longrightarrow> getAndEnsureCache k args ctx s = (a, s))
   \<and> (map_of (cacheStore s) k = None \<longrightarrow>
        getAndEnsureCache k args ctx s =
          (nextAddr s,
           s\<lparr>heap := (heap s)(nextAddr s :=
                  \<lparr>key = k, lastArgs = args, callContext = ctx, subject = new_ReplaySubject,
                   initialized = False\<rparr>),
             nextAddr := Suc (nextAddr s),
             cacheStore := cacheStore s @ [(k, nextAddr s)]\<rparr>))
   \<and> (b < nextAddr s \<longrightarrow>
        key (heap (run d ops s) b) = key (heap s b) \<and>
        lastArgs (heap (run d ops s) b) = lastArgs (heap s b) \<and>
        callContext (heap (run d ops s) b) = callContext (heap s b))"
  using captured_run[of b s d ops]
  by (simp add: getAndEnsureCache_present getAndEnsureCache_absent captured_def)

theorem getAndEnsureCache_returns_or_creates_witness:
  "getAndEnsureCache ''B'' [9] ''other'' exThree = (1, exThree)
   \<and> fst (getAndEnsureCache ''A'' [9] ''other'' exManager) = 0
   \<and> heap (snd (getAndEnsureCache ''A'' [9] ''other'' exManager)) 0 =
       \<lparr>key = ''A'', lastArgs = [9], callContext = ''other'', subject = new_ReplaySubject,
        initialized = False\<rparr>
   \<and> lastArgs (heap (run exDeps [Read ''B'' [9] ''other'', Invalidate None, Read ''B'' [2] ''x'']
                    exThree) 1) = [1]
   \<and> callContext (heap (run exDeps [Read ''B'' [9] ''other'', Invalidate None, Read ''B'' [2] ''x'']
                    exThree) 1) = ''svc''"
proof -
  have p: "map_of (cacheStore exThree) ''B'' = Some 1"
    by (simp add: exThree_def)
  have q: "map_of (cacheStore exManager) ''A'' = None"
    by (simp add: exManager_def new_LocalCacheManager_def)
  have b: "1 < nextAddr exThree"
    by (simp add: exThree_def)
  have 1: "getAndEnsureCache ''B'' [9] ''other'' exThree = (1, exThree)"
    using getAndEnsureCache_returns_or_creates[of exThree "''B''" 1 "[9]" "''other''"] p
    by simp
  have 2: "getAndEnsureCache ''A'' [9] ''other'' exManager =
          (nextAddr exManager,
           exManager\<lparr>heap := (heap exManager)(nextAddr exManager :=
                  \<lparr>key = ''A'', lastArgs = [9], callContext = ''other'',
                   subject = new_ReplaySubject, initialized = False\<rparr>),
             nextAddr := Suc (nextAddr exManager),
             cacheStore := cacheStore exManager @ [(''A'', nextAddr exManager)]\<rparr>)"
    using getAndEnsureCache_returns_or_creates[of exManager "''A''" 0 "[9]" "''other''"] q
    by simp
  have 3: "lastArgs (heap (run exDeps [Read ''B'' [9] ''other'', Invalidate None, Read ''B'' [2] ''x'']
                    exThree) 1) = lastArgs (heap exThree 1)
         \<and> callContext (heap (run exDeps [Read ''B'' [9] ''other'', Invalidate None, Read ''B'' [2] ''x'']
                    exThree) 1) = callContext (heap exThree 1)"
    using getAndEnsureCache_returns_or_creates[of exThree "''B''" 1 "[9]" "''other''" 1 exDeps
        "[Read ''B'' [9] ''other'', Invalidate None, Read ''B'' [2] ''x'']"] b
    by simp
  have 4: "lastArgs (heap exThree 1) = [1] \<and> callContext (heap exThree 1) = ''svc''"
    by (simp add: exThree_def exCache_def)
  have 5: "nextAddr exManager = 0"
    by (simp add: exManager_def new_LocalCacheManager_def)
  from 1 2 3 4 5 show ?thesis by simp
qed

section \<open>Invariants of the trace\<close>

lemma upd_swap:
  "(s::('k, 'a, 'c, 'v, 'e, 'w) LocalCacheManager)\<lparr>world := w, trace := tr\<rparr> = s\<lparr>trace := tr, world := w\<rparr>"
  by (cases s) simp

text \<open>The outcomes of a staleness check and of an invalidation, as states.\<close>

lemma staleness_cases:
  obtains (quiet) w where
      "snd (refreshCacheIfOutOfDataAsync d k a s) = s\<lparr>world := w, trace := trace s @ [StorageGet k]\<rparr>"
  | (refresh) w where
      "snd (refreshCacheIfOutOfDataAsync d k a s) =
         refreshCacheData d a (s\<lparr>world := w, trace := trace s @ [StorageGet k]\<rparr>)"
  | (serve) w v where
      "snd (refreshCacheIfOutOfDataAsync d k a s) =
         setCacheData a v (s\<lparr>world := w, trace := trace s @ [StorageGet k]\<rparr>)"
proof -
  obtain r w1 where g: "getAsync d (world s) k = (r, w1)" by (cases "getAsync d (world s) k")
  obtain t w2 where n: "now d w1 = (t, w2)" by (cases "now d w1")
  show thesis
  proof (cases r)
    case (Inl e)
    with g quiet[of w1] show ?thesis by (simp add: staleness_read_fails)
  next
    case (Inr cur)
    show ?thesis
    proof (cases cur)
      case None
      with Inr g refresh[of w1] show ?thesis by (simp add: staleness_no_record)
    next
      case (Some cd)
      with Inr g have g': "getAsync d (world s) k = (Inr (Some cd), w1)" by simp
      consider (old) "createdAt cd + maxAgeMS cd \<le> t"
        | (fresh) "t < createdAt cd + maxAgeMS cd" "\<not> initialized (heap s a)"
        | (known) "t < createdAt cd + maxAgeMS cd" "initialized (heap s a)"
        by linarith
      then show ?thesis
      proof cases
        case old
        then show ?thesis
          using refresh[of w2] by (simp add: staleness_outdated[OF g' n] upd_swap)
      next
        case fresh
        then show ?thesis
          using serve[of "data cd" w2] by (simp add: staleness_fresh_uninitialized[OF g' n] upd_swap)
      next
        case known
        then show ?thesis
          using quiet[of w2] by (simp add: staleness_fresh_initialized[OF g' n] upd_swap)
      qed
    qed
  qed
qed

subsection \<open>Every written record carries the manager's max-age\<close>

lemma storesCarry_simps [simp]:
  "storesCarry m []"
  "storesCarry m (xs @ ys) = (storesCarry m xs \<and> storesCarry m ys)"
  "storesCarry m (ProducerCall c args # evs) = storesCarry m evs"
  "storesCarry m (StorageGet k # evs) = storesCarry m evs"
  "storesCarry m (StorageStore k cd # evs) = (maxAgeMS cd = m \<and> storesCarry m evs)"
  "storesCarry m (StorageRemove ks # evs) = storesCarry m evs"
  "storesCarry m (SubjectNext a v # evs) = storesCarry m evs"
  "storesCarry m (SubjectError a e # evs) = storesCarry m evs"
  "storesCarry m (Deliver sid n # evs) = storesCarry m evs"
  by (simp_all add: storesCarry_def)

lemma storesCarry_Deliver [simp]:
  "storesCarry m (map (\<lambda>(sid, n). Deliver sid n) dl)"
  by (simp add: storesCarry_def)

lemma storesCarry_iff:
  "storesCarry m evs \<longleftrightarrow> (\<forall>kc \<in> set (storageWrites evs). maxAgeMS (snd kc) = m)"
  by (auto simp: storesCarry_def list_all_iff)

lemma onlyCarryingI:
  "trace s' = trace s @ evs \<Longrightarrow> storesCarry (maxAgeInMS d) evs \<Longrightarrow> onlyCarrying d s s'"
  by (simp add: onlyCarrying_def newEvents_def)

lemma onlyCarryingD:
  assumes "onlyCarrying d s s'"
  shows "trace s' = trace s @ newEvents s s'" and "storesCarry (maxAgeInMS d) (newEvents s s')"
proof -
  from assms have t: "take (length (trace s)) (trace s') = trace s"
    and c: "storesCarry (maxAgeInMS d) (newEvents s s')"
    by (simp_all add: onlyCarrying_def)
  have "trace s' = take (length (trace s)) (trace s') @ drop (length (trace s)) (trace s')"
    by simp
  with t show "trace s' = trace s @ newEvents s s'" by (simp add: newEvents_def)
  from c show "storesCarry (maxAgeInMS d) (newEvents s s')" .
qed

lemma onlyCarrying_same: "trace s' = trace s \<Longrightarrow> onlyCarrying d s s'"
  by (rule onlyCarryingI[of _ _ "[]"]) simp_all

lemma onlyCarrying_trans:
  assumes "onlyCarrying d s s'" and "onlyCarrying d s' s''"
  shows "onlyCarrying d s s''"
proof -
  from onlyCarryingD[OF assms(1)] onlyCarryingD[OF assms(2)]
  have "trace s'' = trace s @ (newEvents s s' @ newEvents s' s'')"
    and "storesCarry (maxAgeInMS d) (newEvents s s' @ newEvents s' s'')"
    by simp_all
  then show ?thesis by (rule onlyCarryingI)
qed

lemma onlyCarrying_log:
  "storesCarry (maxAgeInMS d) evs \<Longrightarrow> onlyCarrying d s (s\<lparr>world := w, trace := trace s @ evs\<rparr>)"
  by (rule onlyCarryingI[of _ _ evs]) simp_all

lemma onlyCarrying_setCacheData: "onlyCarrying d s (setCacheData a v s)"
  by (rule onlyCarryingI[of _ _ "SubjectNext a v #
        map (\<lambda>(sid, n). Deliver sid n) (snd (next_RS v (subject (heap s a))))"])
     (simp_all add: setCacheData_shape)

lemma onlyCarrying_refreshCacheData: "onlyCarrying d s (refreshCacheData d a s)"
proof -
  obtain w' evs sub' where
    eq: "refreshCacheData d a s =
       s\<lparr>world := w', trace := trace s @ evs,
         heap := (heap s)(a := (heap s a)\<lparr>subject := sub',
                   initialized := (initialized (heap s a) \<or> nextCalledOn a evs)\<rparr>)\<rparr>"
    and c: "\<forall>kc \<in> set (storageWrites evs). maxAgeMS (snd kc) = maxAgeInMS d"
    using refreshCacheData_shape[of d a s] by blast
  from c have "storesCarry (maxAgeInMS d) evs" by (simp add: storesCarry_iff)
  moreover have "trace (refreshCacheData d a s) = trace s @ evs" by (simp add: eq)
  ultimately show ?thesis using onlyCarryingI by blast
qed

lemma onlyCarrying_staleness:
  "onlyCarrying d s (snd (refreshCacheIfOutOfDataAsync d k a s))"
proof (rule staleness_cases[of d k a s])
  fix w
  assume "snd (refreshCacheIfOutOfDataAsync d k a s) = s\<lparr>world := w, trace := trace s @ [StorageGet k]\<rparr>"
  then show ?thesis by (simp add: onlyCarrying_log)
next
  fix w
  assume "snd (refreshCacheIfOutOfDataAsync d k a s) =
         refreshCacheData d a (s\<lparr>world := w, trace := trace s @ [StorageGet k]\<rparr>)"
  moreover have "onlyCarrying d s (s\<lparr>world := w, trace := trace s @ [StorageGet k]\<rparr>)"
    by (simp add: onlyCarrying_log)
  moreover have "onlyCarrying d (s\<lparr>world := w, trace := trace s @ [StorageGet k]\<rparr>)
      (refreshCacheData d a (s\<lparr>world := w, trace := trace s @ [StorageGet k]\<rparr>))"
    by (rule onlyCarrying_refreshCacheData)
  ultimately show ?thesis using onlyCarrying_trans by metis
next
  fix w v
  assume "snd (refreshCacheIfOutOfDataAsync d k a s) =
         setCacheData a v (s\<lparr>world := w, trace := trace s @ [StorageGet k]\<rparr>)"
  moreover have "onlyCarrying d s (s\<lparr>world := w, trace := trace s @ [StorageGet k]\<rparr>)"
    by (simp add: onlyCarrying_log)
  moreover have "onlyCarrying d (s\<lparr>world := w, trace := trace s @ [StorageGet k]\<rparr>)
      (setCacheData a v (s\<lparr>world := w, trace := trace s @ [StorageGet k]\<rparr>))"
    by (rule onlyCarrying_setCacheData)
  ultimately show ?thesis using onlyCarrying_trans by metis
qed

lemma onlyCarrying_subjectError: "onlyCarrying d s (subjectError a e s)"
  by (rule onlyCarryingI[of _ _ "SubjectError a e #
        map (\<lambda>(sid, n). Deliver sid n) (snd (error_RS e (subject (heap s a))))"])
     (simp_all add: subjectError_shape)

lemma onlyCarrying_pipelineSteps: "pipelineSteps d A s s' \<Longrightarrow> onlyCarrying d s s'"
proof (induction rule: pipelineSteps.induct)
  case stepHere
  show ?case by (simp add: onlyCarrying_same)
next
  case stepCall
  show ?case
    by (rule onlyCarrying_trans[OF stepCall.IH]) (simp add: onlyCarrying_log)
next
  case stepWrite
  show ?case
    using stepWrite.hyps(2)
    by (intro onlyCarrying_trans[OF stepWrite.IH]) (simp add: onlyCarrying_log)
next
  case stepFail
  from onlyCarrying_trans[OF stepFail.IH onlyCarrying_subjectError] show ?case .
next
  case stepPublish
  from onlyCarrying_trans[OF stepPublish.IH onlyCarrying_setCacheData] show ?case .
qed

lemma onlyCarrying_invalidate:
  "onlyCarrying d s (snd (invalidateAndUpdateAsync d cacheKey s))"
proof -
  let ?s1 = "removeUnobservedCachesAsync None s"
  let ?ks = "allToInvalidateAndUpdate d cacheKey ?s1"
  have f: "\<And>w. onlyCarrying d s (?s1\<lparr>world := w, trace := trace s @ [StorageRemove ?ks]\<rparr>)"
    by (rule onlyCarryingI[of _ _ "[StorageRemove ?ks]"]) simp_all
  show ?thesis
  proof (rule invalidate_cases[of d cacheKey s])
    fix w
    assume "snd (invalidateAndUpdateAsync d cacheKey s) =
         (removeUnobservedCachesAsync None s)\<lparr>world := w,
            trace := trace s @ [StorageRemove
              (allToInvalidateAndUpdate d cacheKey (removeUnobservedCachesAsync None s))]\<rparr>"
    with f show ?thesis by simp
  next
    fix w
    assume "pipelineSteps d (snd ` set (cacheStore (removeUnobservedCachesAsync None s)))
         ((removeUnobservedCachesAsync None s)\<lparr>world := w,
            trace := trace s @ [StorageRemove
              (allToInvalidateAndUpdate d cacheKey (removeUnobservedCachesAsync None s))]\<rparr>)
         (snd (invalidateAndUpdateAsync d cacheKey s))"
    from onlyCarrying_trans[OF f onlyCarrying_pipelineSteps[OF this]] show ?thesis .
  qed
qed

lemma onlyCarrying_getCache_sync: "onlyCarrying d s (snd (getCache_sync k args ctx s))"
  by (rule onlyCarrying_same)
     (simp add: getCache_sync_def split_beta sweep_fields getAndEnsureCache_def Let_def
        split: option.split)

lemma onlyCarrying_getCache: "onlyCarrying d s (snd (getCache d k args ctx s))"
  using onlyCarrying_trans[OF onlyCarrying_getCache_sync onlyCarrying_staleness]
  by (simp add: getCache_def split_beta)

lemma onlyCarrying_subscribe: "onlyCarrying d s (snd (subscribe a s))"
  by (rule onlyCarryingI[of _ _ "map (\<lambda>(sid, n). Deliver sid n)
        (snd (subscribe_RS (nextSubscriber s) (subject (heap s a))))"])
     (simp_all add: subscribe_shape)

lemma onlyCarrying_apply_op: "onlyCarrying d s (apply_op d s op)"
  by (cases op)
     (simp_all add: onlyCarrying_getCache onlyCarrying_getCache_sync onlyCarrying_staleness
        onlyCarrying_invalidate onlyCarrying_subscribe onlyCarrying_same unsubscribe_def Let_def)

lemma onlyCarrying_run: "onlyCarrying d s (run d ops s)"
proof (induction ops arbitrary: s)
  case Nil
  show ?case by (simp add: run_def onlyCarrying_same)
next
  case (Cons op ops)
  from onlyCarrying_trans[OF onlyCarrying_apply_op Cons.IH[unfolded run_def]]
  show ?case by (simp add: run_def)
qed

text \<open>
  Claim C10. Every record that any sequence of operations writes to the durable store
  carries, as \<open>maxAgeMS\<close>, the one max-age the manager was constructed with, whatever the
  key and whichever refresh wrote it; this holds for the writes added to the trace from
  any state, and so for the whole trace of a manager that starts new.
\<close>

theorem every_write_carries_the_managers_maxAge:
  "(\<forall>kc \<in> set (storageWrites (newEvents s (run d ops s))). maxAgeMS (snd kc) = maxAgeInMS d)
   \<and> (\<forall>kc \<in> set (storageWrites (trace (run d ops (new_LocalCacheManager c0 w)))).
         maxAgeMS (snd kc) = maxAgeInMS d)"
proof
  show "\<forall>kc \<in> set (storageWrites (newEvents s (run d ops s))). maxAgeMS (snd kc) = maxAgeInMS d"
    using onlyCarryingD(2)[OF onlyCarrying_run, of d s ops] by (simp add: storesCarry_iff)
  have "newEvents (new_LocalCacheManager c0 w) (run d ops (new_LocalCacheManager c0 w))
        = trace (run d ops (new_LocalCacheManager c0 w))"
    by (simp add: newEvents_def new_LocalCacheManager_def)
  then show "\<forall>kc \<in> set (storageWrites (trace (run d ops (new_LocalCacheManager c0 w)))).
         maxAgeMS (snd kc) = maxAgeInMS d"
    using onlyCarryingD(2)[OF onlyCarrying_run, of d "new_LocalCacheManager c0 w" ops]
    by (simp add: storesCarry_iff)
qed

lemma ex_read_trace:
  "trace (run exDeps [Read ''A'' [1] ''svc''] exManager) =
     [StorageGet ''A'', ProducerCall ''svc'' [1],
      StorageStore ''A'' \<lparr>data = 7, maxAgeMS = 1000, createdAt = 0\<rparr>, SubjectNext 0 7]"
  by (simp add: run_def getCache_def getCache_sync_def getAndEnsureCache_def
      removeUnobservedCachesAsync_def refreshCacheIfOutOfDataAsync_def refreshCacheData_def
      setCacheData_def exManager_def new_LocalCacheManager_def exDeps_def exWorld_def exCache_def
      observed_def new_ReplaySubject_def next_RS_def trimBuffer_def store_delete_def Let_def)

theorem every_write_carries_the_managers_maxAge_witness:
  "(''A'', \<lparr>data = 7, maxAgeMS = 1000, createdAt = 0\<rparr>)
       \<in> set (storageWrites (trace (run exDeps [Read ''A'' [1] ''svc''] exManager)))
   \<and> maxAgeMS (snd (''A'', \<lparr>data = 7::nat, maxAgeMS = 1000, createdAt = 0\<rparr>)) = maxAgeInMS exDeps"
proof -
  have e: "exManager = new_LocalCacheManager (exCache []) exWorld" by (simp add: exManager_def)
  have m: "(''A'', \<lparr>data = 7, maxAgeMS = 1000, createdAt = 0\<rparr>)
       \<in> set (storageWrites (trace (run exDeps [Read ''A'' [1] ''svc''] exManager)))"
    unfolding ex_read_trace by simp
  from every_write_carries_the_managers_maxAge[of exManager exDeps "[Read ''A'' [1] ''svc'']"
      "exCache []" exWorld]
  have "\<forall>kc \<in> set (storageWrites (trace (run exDeps [Read ''A'' [1] ''svc''] exManager))).
      maxAgeMS (snd kc) = maxAgeInMS exDeps"
    unfolding e by blast
  with m show ?thesis by blast
qed

subsection \<open>The initialized flag follows the calls of \<open>next\<close>\<close>

lemma storeAllocated_iff:
  "storeAllocated s \<longleftrightarrow> (\<forall>(k, a) \<in> set (cacheStore s). a < nextAddr s)"
  by (simp add: storeAllocated_def list_all_iff)

lemma storeAllocated_keepsEntries: "keepsEntries s s' \<Longrightarrow> storeAllocated s \<Longrightarrow> storeAllocated s'"
  by (simp add: keepsEntries_def storeAllocated_def)

lemma storeAllocated_map_of:
  "storeAllocated s \<Longrightarrow> map_of (cacheStore s) k = Some a \<Longrightarrow> a < nextAddr s"
  by (auto simp: storeAllocated_iff dest: map_of_SomeD)

lemma storeAllocated_sweep:
  "storeAllocated s \<Longrightarrow> storeAllocated (removeUnobservedCachesAsync except s)"
  using sweep_subset[of except s] by (auto simp: storeAllocated_iff sweep_fields)

lemma storeAllocated_getAndEnsureCache:
  assumes "storeAllocated s"
  shows "storeAllocated (snd (getAndEnsureCache k args ctx s))"
    and "fst (getAndEnsureCache k args ctx s) < nextAddr (snd (getAndEnsureCache k args ctx s))"
proof -
  show "storeAllocated (snd (getAndEnsureCache k args ctx s))"
  proof (cases "map_of (cacheStore s) k")
    case None
    with assms show ?thesis
      by (auto simp: getAndEnsureCache_absent storeAllocated_iff less_Suc_eq)
  next
    case (Some a)
    with assms show ?thesis by (simp add: getAndEnsureCache_present)
  qed
  show "fst (getAndEnsureCache k args ctx s) < nextAddr (snd (getAndEnsureCache k args ctx s))"
  proof (cases "map_of (cacheStore s) k")
    case None
    then show ?thesis by (simp add: getAndEnsureCache_absent)
  next
    case (Some a)
    with assms show ?thesis by (simp add: getAndEnsureCache_present storeAllocated_map_of)
  qed
qed

lemma flagsAgree_log:
  "flagsAgree s \<Longrightarrow> (\<And>a. \<not> nextCalledOn a evs) \<Longrightarrow>
   flagsAgree (s\<lparr>world := w, trace := trace s @ evs\<rparr>)"
  by (simp add: flagsAgree_def)

lemma flagsAgree_setCacheData:
  "a < nextAddr s \<Longrightarrow> flagsAgree s \<Longrightarrow> flagsAgree (setCacheData a v s)"
  by (auto simp: flagsAgree_def setCacheData_shape)

lemma flagsAgree_refreshCacheData:
  assumes "a < nextAddr s" and "flagsAgree s"
  shows "flagsAgree (refreshCacheData d a s)"
proof -
  obtain w' evs sub' where
    eq: "refreshCacheData d a s =
       s\<lparr>world := w', trace := trace s @ evs,
         heap := (heap s)(a := (heap s a)\<lparr>subject := sub',
                   initialized := (initialized (heap s a) \<or> nextCalledOn a evs)\<rparr>)\<rparr>"
    and other: "\<forall>b. b \<noteq> a \<longrightarrow> \<not> nextCalledOn b evs"
    using refreshCacheData_shape[of d a s] by blast
  show ?thesis
    unfolding eq using assms other by (auto simp: flagsAgree_def)
qed

lemma flagsAgree_staleness:
  assumes "a < nextAddr s" and "flagsAgree s"
  shows "flagsAgree (snd (refreshCacheIfOutOfDataAsync d k a s))"
proof (rule staleness_cases[of d k a s])
  fix w
  assume "snd (refreshCacheIfOutOfDataAsync d k a s) = s\<lparr>world := w, trace := trace s @ [StorageGet k]\<rparr>"
  then show ?thesis using assms(2) by (simp add: flagsAgree_log)
next
  fix w
  let ?s1 = "s\<lparr>world := w, trace := trace s @ [StorageGet k]\<rparr>"
  assume eq: "snd (refreshCacheIfOutOfDataAsync d k a s) = refreshCacheData d a ?s1"
  have "flagsAgree ?s1" using assms(2) by (simp add: flagsAgree_log)
  moreover have "a < nextAddr ?s1" using assms(1) by simp
  ultimately show ?thesis unfolding eq by (rule flagsAgree_refreshCacheData[rotated])
next
  fix w v
  let ?s1 = "s\<lparr>world := w, trace := trace s @ [StorageGet k]\<rparr>"
  assume eq: "snd (refreshCacheIfOutOfDataAsync d k a s) = setCacheData a v ?s1"
  have "flagsAgree ?s1" using assms(2) by (simp add: flagsAgree_log)
  moreover have "a < nextAddr ?s1" using assms(1) by simp
  ultimately show ?thesis unfolding eq by (rule flagsAgree_setCacheData[rotated])
qed

lemma flagsAgree_sweep: "flagsAgree s \<Longrightarrow> flagsAgree (removeUnobservedCachesAsync except s)"
  by (simp add: flagsAgree_def sweep_fields)

lemma flagsAgree_getAndEnsureCache:
  "flagsAgree s \<Longrightarrow> flagsAgree (snd (getAndEnsureCache k args ctx s))"
  by (cases "map_of (cacheStore s) k")
     (auto simp: getAndEnsureCache_absent getAndEnsureCache_present flagsAgree_def less_Suc_eq)

lemma flagsAgree_subjectError: "flagsAgree s \<Longrightarrow> flagsAgree (subjectError a e s)"
  by (auto simp: flagsAgree_def subjectError_shape)

lemma primitive_nextAddr:
  "nextAddr (subjectError a e s) = nextAddr s"
  "nextAddr (setCacheData a v s) = nextAddr s"
  by (simp_all add: subjectError_shape setCacheData_shape)

lemma flagsAgree_pipelineSteps_aux:
  assumes "pipelineSteps d A s s'" and "\<forall>a \<in> A. a < nextAddr s" and "flagsAgree s"
  shows "flagsAgree s' \<and> nextAddr s' = nextAddr s"
  using assms
proof (induction rule: pipelineSteps.induct)
  case stepHere
  then show ?case by simp
next
  case stepCall
  then show ?case by (simp add: flagsAgree_log)
next
  case stepWrite
  then show ?case by (simp add: flagsAgree_log)
next
  case stepFail
  then show ?case by (simp add: flagsAgree_subjectError primitive_nextAddr)
next
  case stepPublish
  then show ?case by (simp add: flagsAgree_setCacheData primitive_nextAddr)
qed

lemma flagsAgree_pipelineSteps:
  assumes "pipelineSteps d A s s'" and "\<forall>a \<in> A. a < nextAddr s" and "flagsAgree s"
  shows "flagsAgree s'"
  using flagsAgree_pipelineSteps_aux[OF assms] by simp

lemma consistent_invalidate:
  assumes "flagsAgree s" and "storeAllocated s"
  shows "flagsAgree (snd (invalidateAndUpdateAsync d cacheKey s)) \<and>
         storeAllocated (snd (invalidateAndUpdateAsync d cacheKey s))"
proof -
  let ?s1 = "removeUnobservedCachesAsync None s"
  let ?ks = "allToInvalidateAndUpdate d cacheKey ?s1"
  have f: "\<And>w. flagsAgree (?s1\<lparr>world := w, trace := trace s @ [StorageRemove ?ks]\<rparr>)"
    using flagsAgree_log[OF flagsAgree_sweep[OF assms(1)], of "[StorageRemove ?ks]" None]
    by (simp add: sweep_fields)
  have a: "\<And>w. storeAllocated (?s1\<lparr>world := w, trace := trace s @ [StorageRemove ?ks]\<rparr>)"
    using storeAllocated_sweep[OF assms(2), of None] by (simp add: storeAllocated_def)
  have below: "\<And>w. \<forall>b \<in> snd ` set (cacheStore ?s1).
      b < nextAddr (?s1\<lparr>world := w, trace := trace s @ [StorageRemove ?ks]\<rparr>)"
    using storeAllocated_sweep[OF assms(2), of None] by (auto simp: storeAllocated_iff)
  show ?thesis
  proof (rule invalidate_cases[of d cacheKey s])
    fix w
    assume "snd (invalidateAndUpdateAsync d cacheKey s) =
         (removeUnobservedCachesAsync None s)\<lparr>world := w,
            trace := trace s @ [StorageRemove
              (allToInvalidateAndUpdate d cacheKey (removeUnobservedCachesAsync None s))]\<rparr>"
    with f a show ?thesis by simp
  next
    fix w
    assume st: "pipelineSteps d (snd ` set (cacheStore (removeUnobservedCachesAsync None s)))
         ((removeUnobservedCachesAsync None s)\<lparr>world := w,
            trace := trace s @ [StorageRemove
              (allToInvalidateAndUpdate d cacheKey (removeUnobservedCachesAsync None s))]\<rparr>)
         (snd (invalidateAndUpdateAsync d cacheKey s))"
    from flagsAgree_pipelineSteps[OF st below f]
      storeAllocated_keepsEntries[OF keepsEntries_pipelineSteps[OF st] a]
    show ?thesis by simp
  qed
qed

lemma consistent_getCache_sync:
  assumes "flagsAgree s" and "storeAllocated s"
  shows "flagsAgree (snd (getCache_sync k args ctx s))"
    and "storeAllocated (snd (getCache_sync k args ctx s))"
    and "fst (getCache_sync k args ctx s) < nextAddr (snd (getCache_sync k args ctx s))"
  using flagsAgree_sweep[OF flagsAgree_getAndEnsureCache[OF assms(1)]]
    storeAllocated_sweep[OF storeAllocated_getAndEnsureCache(1)[OF assms(2)]]
    storeAllocated_getAndEnsureCache(2)[OF assms(2)]
  by (simp_all add: getCache_sync_def split_beta sweep_fields)

lemma consistent_getCache:
  assumes "flagsAgree s" and "storeAllocated s"
  shows "flagsAgree (snd (getCache d k args ctx s)) \<and> storeAllocated (snd (getCache d k args ctx s))"
  using flagsAgree_staleness[OF consistent_getCache_sync(3)[OF assms] consistent_getCache_sync(1)[OF assms]]
    storeAllocated_keepsEntries[OF keepsEntries_staleness consistent_getCache_sync(2)[OF assms]]
  by (simp add: getCache_def split_beta)

lemma consistent_subscribe:
  "flagsAgree s \<Longrightarrow> flagsAgree (snd (subscribe a s))"
  by (simp add: subscribe_shape flagsAgree_def)

lemma consistent_unsubscribe:
  "flagsAgree s \<Longrightarrow> flagsAgree (unsubscribe a sid s)"
  by (simp add: unsubscribe_def Let_def flagsAgree_def)

lemma consistent_apply_op:
  assumes "flagsAgree s" and "storeAllocated s"
  shows "flagsAgree (apply_op d s op) \<and> storeAllocated (apply_op d s op)"
proof (cases op)
  case (Read k args ctx)
  with consistent_getCache[OF assms] show ?thesis by simp
next
  case (ReadPending k args ctx)
  with consistent_getCache_sync(1,2)[OF assms] show ?thesis by simp
next
  case (StalenessCheck k a)
  with assms flagsAgree_staleness[of a s d k]
    storeAllocated_keepsEntries[OF keepsEntries_staleness assms(2)]
  show ?thesis by simp
next
  case (Invalidate cacheKey)
  with consistent_invalidate[OF assms] show ?thesis by simp
next
  case (Subscribe a)
  with assms consistent_subscribe[of s a]
    storeAllocated_keepsEntries[OF keepsEntries_subscribe assms(2)]
  show ?thesis by simp
next
  case (Unsubscribe a sid)
  with assms consistent_unsubscribe[of s a sid]
    storeAllocated_keepsEntries[OF keepsEntries_unsubscribe assms(2)]
  show ?thesis by simp
qed

lemma consistent_run:
  "flagsAgree s \<Longrightarrow> storeAllocated s \<Longrightarrow>
   flagsAgree (run d ops s) \<and> storeAllocated (run d ops s)"
proof (induction ops arbitrary: s)
  case Nil
  then show ?case by (simp add: run_def)
next
  case (Cons op ops)
  from consistent_apply_op[OF Cons.prems]
  have "flagsAgree (apply_op d s op)" "storeAllocated (apply_op d s op)" by simp_all
  from Cons.IH[OF this] show ?case by (simp add: run_def)
qed

lemma consistent_new:
  "flagsAgree (new_LocalCacheManager c0 w)" "storeAllocated (new_LocalCacheManager c0 w)"
  by (simp_all add: flagsAgree_def storeAllocated_def new_LocalCacheManager_def)

lemma trimBuffer_fields [simp]:
  "isStopped (trimBuffer r) = isStopped r"
  "thrownError (trimBuffer r) = thrownError r"
  "observers (trimBuffer r) = observers r"
  by (simp_all add: trimBuffer_def)

lemma next_RS_live:
  "\<not> isStopped r \<Longrightarrow>
   next_RS v r = (r\<lparr>buffer := [v]\<rparr>, map (\<lambda>ob. (ob, NextN v)) (observers r))"
  by (simp add: next_RS_def Let_def trimBuffer_def)

lemma next_RS_stopped: "isStopped r \<Longrightarrow> next_RS v r = (trimBuffer r, [])"
  by (simp add: next_RS_def Let_def)


lemma error_RS_buffer: "buffer (fst (error_RS e r)) = buffer r"
  by (simp add: error_RS_def)

lemma subscribe_RS_buffer: "buffer (fst (subscribe_RS sid r)) = buffer (trimBuffer r)"
  by (simp add: subscribe_RS_def Let_def)

lemma trimBuffer_empty: "buffer (trimBuffer r) \<noteq> [] \<Longrightarrow> buffer r \<noteq> []"
  by (auto simp: trimBuffer_def split: if_splits)

lemma valuesFlagged_log:
  "valuesFlagged s \<Longrightarrow> valuesFlagged (s\<lparr>world := w, trace := tr\<rparr>)"
  by (simp add: valuesFlagged_def)

lemma valuesFlagged_setCacheData: "valuesFlagged s \<Longrightarrow> valuesFlagged (setCacheData a v s)"
  by (auto simp: valuesFlagged_def setCacheData_shape)

lemma valuesFlagged_subjectError: "valuesFlagged s \<Longrightarrow> valuesFlagged (subjectError a e s)"
  by (auto simp: valuesFlagged_def subjectError_shape error_RS_buffer)

lemma valuesFlagged_pipelineSteps:
  assumes "pipelineSteps d A s s'" and "valuesFlagged s"
  shows "valuesFlagged s'"
  using assms
proof (induction rule: pipelineSteps.induct)
  case stepHere
  then show ?case by simp
next
  case stepCall
  then show ?case by (simp add: valuesFlagged_log)
next
  case stepWrite
  then show ?case by (simp add: valuesFlagged_log)
next
  case stepFail
  then show ?case by (simp add: valuesFlagged_subjectError)
next
  case stepPublish
  then show ?case by (simp add: valuesFlagged_setCacheData)
qed

lemma valuesFlagged_refreshCacheData:
  assumes "valuesFlagged s"
  shows "valuesFlagged (refreshCacheData d a s)"
proof (rule refreshCacheData_cases[of d s a])
  fix e w1
  assume p: "dataProvider d (world s) (callContext (heap s a)) (lastArgs (heap s a)) = (Inl e, w1)"
  show ?thesis
    unfolding refreshCacheData_producer_fails[OF p]
    by (rule valuesFlagged_subjectError[OF valuesFlagged_log[OF assms]])
next
  fix v w1 t w2 e w3
  assume p: "dataProvider d (world s) (callContext (heap s a)) (lastArgs (heap s a)) = (Inr v, w1)"
    "now d w1 = (t, w2)"
    "storeAsync d w2 (key (heap s a)) \<lparr>data = v, maxAgeMS = maxAgeInMS d, createdAt = t\<rparr> = (Inl e, w3)"
  show ?thesis
    unfolding refreshCacheData_store_fails[OF p]
    by (rule valuesFlagged_subjectError[OF valuesFlagged_log[OF assms]])
next
  fix v w1 t w2 u w3
  assume p: "dataProvider d (world s) (callContext (heap s a)) (lastArgs (heap s a)) = (Inr v, w1)"
    "now d w1 = (t, w2)"
    "storeAsync d w2 (key (heap s a)) \<lparr>data = v, maxAgeMS = maxAgeInMS d, createdAt = t\<rparr> = (Inr u, w3)"
  show ?thesis
    unfolding refreshCacheData_succeeds[OF p]
    by (rule valuesFlagged_setCacheData[OF valuesFlagged_log[OF assms]])
qed

lemma valuesFlagged_staleness:
  assumes "valuesFlagged s"
  shows "valuesFlagged (snd (refreshCacheIfOutOfDataAsync d k a s))"
proof (rule staleness_cases[of d k a s])
  fix w
  assume "snd (refreshCacheIfOutOfDataAsync d k a s) = s\<lparr>world := w, trace := trace s @ [StorageGet k]\<rparr>"
  then show ?thesis using assms by (simp add: valuesFlagged_log)
next
  fix w
  assume eq: "snd (refreshCacheIfOutOfDataAsync d k a s) =
      refreshCacheData d a (s\<lparr>world := w, trace := trace s @ [StorageGet k]\<rparr>)"
  show ?thesis unfolding eq
    by (rule valuesFlagged_refreshCacheData[OF valuesFlagged_log[OF assms]])
next
  fix w v
  assume eq: "snd (refreshCacheIfOutOfDataAsync d k a s) =
      setCacheData a v (s\<lparr>world := w, trace := trace s @ [StorageGet k]\<rparr>)"
  show ?thesis unfolding eq
    by (rule valuesFlagged_setCacheData[OF valuesFlagged_log[OF assms]])
qed

lemma valuesFlagged_sweep:
  "valuesFlagged s \<Longrightarrow> valuesFlagged (removeUnobservedCachesAsync except s)"
  by (simp add: valuesFlagged_def sweep_fields)

lemma valuesFlagged_getAndEnsureCache:
  "valuesFlagged s \<Longrightarrow> valuesFlagged (snd (getAndEnsureCache k args ctx s))"
  by (cases "map_of (cacheStore s) k")
     (auto simp: getAndEnsureCache_absent getAndEnsureCache_present valuesFlagged_def
        new_ReplaySubject_def less_Suc_eq)

lemma valuesFlagged_invalidate:
  assumes "valuesFlagged s"
  shows "valuesFlagged (snd (invalidateAndUpdateAsync d cacheKey s))"
proof (cases rule: invalidate_cases[of d cacheKey s])
  case (rejected w)
  show ?thesis unfolding rejected
    by (rule valuesFlagged_log[OF valuesFlagged_sweep[OF assms]])
next
  case (refreshed w)
  from valuesFlagged_pipelineSteps[OF refreshed valuesFlagged_log[OF valuesFlagged_sweep[OF assms]]]
  show ?thesis .
qed

lemma valuesFlagged_subscribe: "valuesFlagged s \<Longrightarrow> valuesFlagged (snd (subscribe a s))"
  by (auto simp: subscribe_shape valuesFlagged_def subscribe_RS_buffer dest: trimBuffer_empty)

lemma valuesFlagged_unsubscribe: "valuesFlagged s \<Longrightarrow> valuesFlagged (unsubscribe a sid s)"
  by (auto simp: unsubscribe_def Let_def valuesFlagged_def unsubscribe_RS_def)

lemma valuesFlagged_apply_op:
  assumes "valuesFlagged s"
  shows "valuesFlagged (apply_op d s op)"
proof (cases op)
  case (Read k args ctx)
  then show ?thesis
    using valuesFlagged_staleness[OF valuesFlagged_sweep[OF valuesFlagged_getAndEnsureCache[OF assms]]]
    by (simp add: getCache_def getCache_sync_def split_beta)
next
  case (ReadPending k args ctx)
  then show ?thesis
    using valuesFlagged_sweep[OF valuesFlagged_getAndEnsureCache[OF assms]]
    by (simp add: getCache_sync_def split_beta)
next
  case (StalenessCheck k a)
  then show ?thesis using valuesFlagged_staleness[OF assms] assms by simp
next
  case (Invalidate cacheKey)
  then show ?thesis by (simp add: valuesFlagged_invalidate[OF assms])
next
  case (Subscribe a)
  then show ?thesis using valuesFlagged_subscribe[OF assms] assms by simp
next
  case (Unsubscribe a sid)
  then show ?thesis using valuesFlagged_unsubscribe[OF assms] assms by simp
qed

lemma valuesFlagged_run: "valuesFlagged s \<Longrightarrow> valuesFlagged (run d ops s)"
proof (induction ops arbitrary: s)
  case Nil
  then show ?case by (simp add: run_def)
next
  case (Cons op ops)
  from Cons.IH[OF valuesFlagged_apply_op[OF Cons.prems]] show ?case by (simp add: run_def)
qed

lemma valuesFlagged_new: "valuesFlagged (new_LocalCacheManager c0 w)"
  by (simp add: valuesFlagged_def new_LocalCacheManager_def)

lemma setCacheData_live:
  assumes "\<not> isStopped (subject (heap s a))"
  shows "newEvents s (setCacheData a v s) =
           SubjectNext a v # map (\<lambda>ob. Deliver ob (NextN v)) (observers (subject (heap s a)))"
    and "buffer (subject (heap (setCacheData a v s) a)) = [v]"
  using assms by (simp_all add: setCacheData_shape newEvents_def next_RS_live comp_def)

lemma setCacheData_stopped:
  assumes "isStopped (subject (heap s a))"
  shows "newEvents s (setCacheData a v s) = [SubjectNext a v]"
    and "subject (heap (setCacheData a v s) a) = trimBuffer (subject (heap s a))"
  using assms by (simp_all add: setCacheData_shape newEvents_def next_RS_stopped)

text \<open>
  Claim C7, as the code has it. Over every sequence of operations on a manager that
  starts new, an allocated entry is initialized exactly when \<open>next\<close> has been called on its
  subject, an entry whose subject holds a value is initialized, and the trace only grows:
  the flag, false at creation, becomes true with the first call of \<open>next\<close> and at no other
  time. From any state, no sequence of operations resets the flag of an allocated entry
  that is initialized. The call is made by \<open>_setCacheData\<close>, which sets the flag in every
  case: on a live subject the value becomes the buffer and goes to every observer, on a
  subject that a failure has stopped the call is recorded and nothing else happens.
\<close>

theorem initialized_set_at_first_call_of_next:
  "(a < nextAddr (run d ops (new_LocalCacheManager c0 w)) \<longrightarrow>
      initialized (heap (run d ops (new_LocalCacheManager c0 w)) a) =
        nextCalledOn a (trace (run d ops (new_LocalCacheManager c0 w))))
   \<and> (a < nextAddr (run d ops (new_LocalCacheManager c0 w)) \<and>
      buffer (subject (heap (run d ops (new_LocalCacheManager c0 w)) a)) \<noteq> [] \<longrightarrow>
      initialized (heap (run d ops (new_LocalCacheManager c0 w)) a))
   \<and> take (length (trace s)) (trace (run d ops s)) = trace s
   \<and> (a < nextAddr s \<and> initialized (heap s a) \<longrightarrow> initialized (heap (run d ops s) a))
   \<and> initialized (heap (setCacheData a v s) a)
   \<and> (\<not> isStopped (subject (heap s a)) \<longrightarrow>
        newEvents s (setCacheData a v s) =
          SubjectNext a v # map (\<lambda>ob. Deliver ob (NextN v)) (observers (subject (heap s a))) \<and>
        buffer (subject (heap (setCacheData a v s) a)) = [v])
   \<and> (isStopped (subject (heap s a)) \<longrightarrow>
        newEvents s (setCacheData a v s) = [SubjectNext a v] \<and>
        subject (heap (setCacheData a v s) a) = trimBuffer (subject (heap s a)))"
proof (intro conjI)
  from consistent_run[OF consistent_new, of d ops c0 w]
  show "a < nextAddr (run d ops (new_LocalCacheManager c0 w)) \<longrightarrow>
      initialized (heap (run d ops (new_LocalCacheManager c0 w)) a) =
        nextCalledOn a (trace (run d ops (new_LocalCacheManager c0 w)))"
    by (simp add: flagsAgree_def)
  from valuesFlagged_run[OF valuesFlagged_new, of d ops c0 w]
  show "a < nextAddr (run d ops (new_LocalCacheManager c0 w)) \<and>
      buffer (subject (heap (run d ops (new_LocalCacheManager c0 w)) a)) \<noteq> [] \<longrightarrow>
      initialized (heap (run d ops (new_LocalCacheManager c0 w)) a)"
    by (simp add: valuesFlagged_def)
  show "take (length (trace s)) (trace (run d ops s)) = trace s"
    using onlyCarrying_run[of d s ops] by (simp add: onlyCarrying_def)
  show "a < nextAddr s \<and> initialized (heap s a) \<longrightarrow> initialized (heap (run d ops s) a)"
    using captured_run[of a s d ops] by (simp add: captured_def)
  show "initialized (heap (setCacheData a v s) a)"
    by (simp add: setCacheData_shape)
  show "\<not> isStopped (subject (heap s a)) \<longrightarrow>
        newEvents s (setCacheData a v s) =
          SubjectNext a v # map (\<lambda>ob. Deliver ob (NextN v)) (observers (subject (heap s a))) \<and>
        buffer (subject (heap (setCacheData a v s) a)) = [v]"
    by (simp add: setCacheData_live)
  show "isStopped (subject (heap s a)) \<longrightarrow>
        newEvents s (setCacheData a v s) = [SubjectNext a v] \<and>
        subject (heap (setCacheData a v s) a) = trimBuffer (subject (heap s a))"
    by (simp add: setCacheData_stopped)
qed

lemma ex_read_nextAddr: "nextAddr (run exDeps [Read ''A'' [1] ''svc''] exManager) = 1"
  by (simp add: run_def getCache_def getCache_sync_def getAndEnsureCache_def
      removeUnobservedCachesAsync_def refreshCacheIfOutOfDataAsync_def refreshCacheData_def
      setCacheData_def exManager_def new_LocalCacheManager_def exDeps_def exWorld_def exCache_def
      observed_def new_ReplaySubject_def next_RS_def trimBuffer_def store_delete_def Let_def)

lemma ex_observed_state:
  "nextAddr (run exDeps [Read ''A'' [1] ''svc'', Subscribe 0] exManager) = 1"
  "initialized (heap (run exDeps [Read ''A'' [1] ''svc'', Subscribe 0] exManager) 0)"
  "subject (heap (run exDeps [Read ''A'' [1] ''svc'', Subscribe 0] exManager) 0) =
     \<lparr>buffer = [7], isStopped = False, thrownError = None, observers = [0]\<rparr>"
  by (simp_all add: exRun)

lemma ex_flaky_state:
  "subject (heap (run exFlaky [Read ''A'' [1] ''svc''] exManager) 0) =
     \<lparr>buffer = [], isStopped = True, thrownError = Some ''producer failed'', observers = []\<rparr>"
  by (simp add: exRun)

theorem initialized_set_at_first_call_of_next_witness:
  "initialized (heap (run exDeps [Read ''A'' [1] ''svc''] exManager) 0)
   \<and> initialized (heap (run exDeps [Unsubscribe 0 0, Read ''B'' [2] ''svc'']
         (run exDeps [Read ''A'' [1] ''svc'', Subscribe 0] exManager)) 0)
   \<and> newEvents (run exDeps [Read ''A'' [1] ''svc'', Subscribe 0] exManager)
        (setCacheData 0 9 (run exDeps [Read ''A'' [1] ''svc'', Subscribe 0] exManager))
      = [SubjectNext 0 9, Deliver 0 (NextN 9)]
   \<and> buffer (subject (heap
        (setCacheData 0 9 (run exDeps [Read ''A'' [1] ''svc'', Subscribe 0] exManager)) 0)) = [9]
   \<and> newEvents (run exFlaky [Read ''A'' [1] ''svc''] exManager)
        (setCacheData 0 8 (run exFlaky [Read ''A'' [1] ''svc''] exManager))
      = [SubjectNext 0 8]
   \<and> buffer (subject (heap
        (setCacheData 0 8 (run exFlaky [Read ''A'' [1] ''svc''] exManager)) 0)) = []
   \<and> initialized (heap (setCacheData 0 8 (run exFlaky [Read ''A'' [1] ''svc''] exManager)) 0)"
proof -
  let ?so = "run exDeps [Read ''A'' [1] ''svc'', Subscribe 0] exManager"
  let ?sf = "run exFlaky [Read ''A'' [1] ''svc''] exManager"
  have e: "exManager = new_LocalCacheManager (exCache []) exWorld" by (simp add: exManager_def)
  have a: "(0::nat) < nextAddr (run exDeps [Read ''A'' [1] ''svc''] exManager)"
    unfolding ex_read_nextAddr by simp
  have p: "nextCalledOn 0 (trace (run exDeps [Read ''A'' [1] ''svc''] exManager))"
    unfolding ex_read_trace by simp
  have b: "(0::nat) < nextAddr ?so \<and> initialized (heap ?so 0)"
    using ex_observed_state by simp
  have live: "\<not> isStopped (subject (heap ?so 0))" using ex_observed_state by simp
  have stopped: "isStopped (subject (heap ?sf 0))" using ex_flaky_state by simp
  from initialized_set_at_first_call_of_next[of 0 exDeps "[Read ''A'' [1] ''svc'']"
      "exCache []" exWorld] a p
  have 1: "initialized (heap (run exDeps [Read ''A'' [1] ''svc''] exManager) 0)"
    unfolding e by blast
  note T2 = initialized_set_at_first_call_of_next[where a = 0 and d = exDeps
      and ops = "[Unsubscribe 0 0, Read ''B'' [2] ''svc'']" and s = ?so and v = 9]
  from T2 b
  have 2: "initialized (heap (run exDeps [Unsubscribe 0 0, Read ''B'' [2] ''svc''] ?so) 0)"
    by blast
  from T2 live
  have 3: "newEvents ?so (setCacheData 0 9 ?so) =
          SubjectNext 0 9 # map (\<lambda>ob. Deliver ob (NextN 9)) (observers (subject (heap ?so 0))) \<and>
        buffer (subject (heap (setCacheData 0 9 ?so) 0)) = [9]"
    by blast
  note T3 = initialized_set_at_first_call_of_next[where a = 0 and d = exDeps
      and ops = "[]" and s = ?sf and v = 8]
  from T3 stopped
  have 4: "newEvents ?sf (setCacheData 0 8 ?sf) = [SubjectNext 0 8] \<and>
        subject (heap (setCacheData 0 8 ?sf) 0) = trimBuffer (subject (heap ?sf 0))"
    by blast
  from T3 have 5: "initialized (heap (setCacheData 0 8 ?sf) 0)" by blast
  have q3: "newEvents ?so (setCacheData 0 9 ?so) = [SubjectNext 0 9, Deliver 0 (NextN 9)]"
    using 3 ex_observed_state by simp
  have q4: "buffer (subject (heap (setCacheData 0 8 ?sf) 0)) = []"
    using 4 ex_flaky_state by (simp add: trimBuffer_def)
  from 1 2 3 q3 4 q4 5 show ?thesis by simp
qed

text \<open>
  The claim as the specification words it sets the flag at the first successful publish.
  Here the first read of \<open>A\<close> fails the entry's subject and the second read refreshes the
  same entry with a producer that works again: \<open>next\<close> is called on the stopped subject,
  which drops the value, and the flag is set all the same. The entry is initialized, its
  buffer is empty, nothing was delivered, and a subscriber receives the error alone.
\<close>

theorem initialized_without_publish_counterexample:
  "\<not> initialized (heap (run exFlaky [Read ''A'' [1] ''svc''] exManager) 0)
   \<and> initialized (heap (run exFlaky [Read ''A'' [1] ''svc'', Read ''A'' [1] ''svc''] exManager) 0)
   \<and> trace (run exFlaky [Read ''A'' [1] ''svc'', Read ''A'' [1] ''svc''] exManager)
     = [StorageGet ''A'', ProducerCall ''svc'' [1], SubjectError 0 ''producer failed'',
        StorageGet ''A'', ProducerCall ''svc'' [1],
        StorageStore ''A'' \<lparr>data = 8, maxAgeMS = 1000, createdAt = 0\<rparr>,
        SubjectNext 0 8]
   \<and> subject (heap (run exFlaky [Read ''A'' [1] ''svc'', Read ''A'' [1] ''svc''] exManager) 0)
     = \<lparr>buffer = [], isStopped = True, thrownError = Some ''producer failed'', observers = []\<rparr>
   \<and> snd (subscribe_RS 9
        (subject (heap (run exFlaky [Read ''A'' [1] ''svc'', Read ''A'' [1] ''svc''] exManager) 0)))
     = [(9, ErrorN ''producer failed'')]"
  by (simp add: exRun)

section \<open>Invalidation\<close>

subsection \<open>One refresh, stage by stage\<close>

lemma resumeRefresh_settled: "stagesLeft p = 0 \<Longrightarrow> resumeRefresh d p s = (p, s)"
  by (cases "(d, p, s)" rule: resumeRefresh.cases) simp_all

lemma stagesLeft_resumeRefresh:
  "stagesLeft (fst (resumeRefresh d p s)) \<le> stagesLeft p - 1"
  by (cases "(d, p, s)" rule: resumeRefresh.cases) (simp_all add: Let_def split_beta)

lemma refreshCacheData_staged:
  "refreshCacheData d a s =
     snd (resumeStep d (resumeStep d (startRefresh d a s)))"
proof (rule refreshCacheData_cases[of d s a])
  fix e w1
  assume p: "dataProvider d (world s) (callContext (heap s a)) (lastArgs (heap s a)) = (Inl e, w1)"
  show ?thesis
    unfolding refreshCacheData_producer_fails[OF p]
    using p by (simp add: resumeStep_def startRefresh_def Let_def)
next
  fix v w1 t w2 e w3
  assume p: "dataProvider d (world s) (callContext (heap s a)) (lastArgs (heap s a)) = (Inr v, w1)"
    "now d w1 = (t, w2)"
    "storeAsync d w2 (key (heap s a)) \<lparr>data = v, maxAgeMS = maxAgeInMS d, createdAt = t\<rparr> = (Inl e, w3)"
  show ?thesis
    unfolding refreshCacheData_store_fails[OF p]
    using p by (simp add: resumeStep_def startRefresh_def Let_def)
next
  fix v w1 t w2 u w3
  assume p: "dataProvider d (world s) (callContext (heap s a)) (lastArgs (heap s a)) = (Inr v, w1)"
    "now d w1 = (t, w2)"
    "storeAsync d w2 (key (heap s a)) \<lparr>data = v, maxAgeMS = maxAgeInMS d, createdAt = t\<rparr> = (Inr u, w3)"
  show ?thesis
    unfolding refreshCacheData_succeeds[OF p]
    using p by (simp add: resumeStep_def startRefresh_def Let_def)
qed

lemma resumeStep_settled: "stagesLeft (fst ps_s) = 0 \<Longrightarrow> resumeStep d ps_s = ps_s"
  by (simp add: resumeStep_def resumeRefresh_settled)

lemma stagesLeft_start: "stagesLeft (fst (startRefresh d a s)) \<le> 2"
  by (cases "fst (dataProvider d (world s) (callContext (heap s a)) (lastArgs (heap s a)))")
     (simp_all add: startRefresh_def Let_def split_beta)

lemma stagesLeft_le2: "stagesLeft p \<le> 2"
  by (cases p rule: stagesLeft.cases) simp_all

lemma stagesLeft_resumeStep: "stagesLeft (fst (resumeStep d x)) \<le> stagesLeft (fst x) - 1"
  unfolding resumeStep_def by (rule stagesLeft_resumeRefresh)

lemma resumeStep_twice_settled: "stagesLeft (fst (resumeStep d (resumeStep d ps_s))) = 0"
proof -
  have "stagesLeft (fst (resumeStep d ps_s)) \<le> stagesLeft (fst ps_s) - 1"
    by (rule stagesLeft_resumeStep)
  moreover have "stagesLeft (fst (resumeStep d (resumeStep d ps_s)))
      \<le> stagesLeft (fst (resumeStep d ps_s)) - 1"
    by (rule stagesLeft_resumeStep)
  moreover have "stagesLeft (fst ps_s) \<le> 2" by (rule stagesLeft_le2)
  ultimately show ?thesis by linarith
qed

lemma resumeStep_funpow_settled:
  "stagesLeft (fst ps_s) = 0 \<Longrightarrow> (resumeStep d ^^ n) ps_s = ps_s"
  by (induction n) (simp_all add: resumeStep_settled)

text \<open>One refresh in flight: whatever the order, it gets its two continuations.\<close>

lemma resumeAll_single:
  "resumeAll d order [p] s =
     (case (resumeStep d ^^ count_list order 0) (p, s) of (p', s') \<Rightarrow> ([p'], s'))"
proof (induction order arbitrary: p s)
  case Nil
  show ?case by (simp add: resumeAll_Nil)
next
  case (Cons i order)
  show ?case
  proof (cases "i = 0")
    case True
    have "resumeAt d 0 ([p], s) = ([fst (resumeStep d (p, s))], snd (resumeStep d (p, s)))"
      by (simp add: resumeAt_def resumeStep_def split_beta)
    then show ?thesis
      using Cons.IH[of "fst (resumeStep d (p, s))" "snd (resumeStep d (p, s))"] True
      by (simp add: resumeAll_Cons funpow_swap1)
  next
    case False
    then have "resumeAt d i ([p], s) = ([p], s)" by (simp add: resumeAt_def)
    then show ?thesis using Cons.IH[of p s] False by (simp add: resumeAll_Cons)
  qed
qed

lemma resumeAll_single_final:
  "snd (resumeAll d (order @ [0..<length [p]] @ [0..<length [p]]) [p] s) =
     snd (resumeStep d (resumeStep d (p, s)))"
proof -
  have c: "count_list (order @ [0..<length [p]] @ [0..<length [p]]) 0 = count_list order 0 + 2"
    by simp
  have "(resumeStep d ^^ (count_list order 0 + 2)) (p, s) =
        (resumeStep d ^^ count_list order 0) ((resumeStep d ^^ 2) (p, s))"
    by (simp only: funpow_add o_apply)
  also have "\<dots> = (resumeStep d ^^ 2) (p, s)"
    by (rule resumeStep_funpow_settled) (simp add: numeral_2_eq_2 resumeStep_twice_settled)
  finally have "(resumeStep d ^^ (count_list order 0 + 2)) (p, s) = resumeStep d (resumeStep d (p, s))"
    by (simp add: numeral_2_eq_2)
  then show ?thesis
    unfolding resumeAll_single c by (simp add: split_beta)
qed

subsection \<open>Refreshes that interleave\<close>

lemma newEvents_step:
  assumes "take (length (trace s0)) (trace s') = trace s0" and "trace s'' = trace s' @ evs"
  shows "newEvents s0 s'' = newEvents s0 s' @ evs"
    and "take (length (trace s0)) (trace s'') = trace s0"
proof -
  have le: "length (trace s0) \<le> length (trace s')"
    using assms(1) by (metis length_take min.cobounded2 min.commute)
  then show "newEvents s0 s'' = newEvents s0 s' @ evs"
    by (simp add: newEvents_def assms(2))
  from le assms show "take (length (trace s0)) (trace s'') = trace s0" by simp
qed

text \<open>What one continuation adds to the trace and where it touches the heap.\<close>

lemma resumeRefresh_frame:
  "\<exists>evs. trace (snd (resumeRefresh d p s)) = trace s @ evs \<and>
     producerCalls evs = [] \<and> (\<forall>k. StorageGet k \<notin> set evs) \<and>
     (\<forall>b. addrOf p \<noteq> Some b \<longrightarrow>
        heap (snd (resumeRefresh d p s)) b = heap s b \<and> \<not> nextCalledOn b evs)"
proof (cases "(d, p, s)" rule: resumeRefresh.cases)
  case (1 d' a e s')
  then have "trace (snd (resumeRefresh d p s)) = trace s @ (SubjectError a e #
      map (\<lambda>(sid, n). Deliver sid n) (snd (error_RS e (subject (heap s a)))))"
    and "\<forall>b. addrOf p \<noteq> Some b \<longrightarrow> heap (snd (resumeRefresh d p s)) b = heap s b"
    by (simp_all add: subjectError_shape)
  moreover have "producerCalls (SubjectError a e #
      map (\<lambda>(sid, n). Deliver sid n) (snd (error_RS e (subject (heap s a))))) = []"
    "\<forall>k. StorageGet k \<notin> set (SubjectError a e #
      map (\<lambda>(sid, n). Deliver sid n) (snd (error_RS e (subject (heap s a)))))"
    "\<forall>b. \<not> nextCalledOn b (SubjectError a e #
      map (\<lambda>(sid, n). Deliver sid n) (snd (error_RS e (subject (heap s a)))))"
    by auto
  ultimately show ?thesis by blast
next
  case (2 d' a v s')
  obtain t w2 where n: "now d (world s) = (t, w2)" by (cases "now d (world s)")
  obtain r2 w3 where st: "storeAsync d w2 (key (heap s a))
      \<lparr>data = v, maxAgeMS = maxAgeInMS d, createdAt = t\<rparr> = (r2, w3)"
    by (cases "storeAsync d w2 (key (heap s a))
      \<lparr>data = v, maxAgeMS = maxAgeInMS d, createdAt = t\<rparr>")
  let ?evs = "[StorageStore (key (heap s a)) \<lparr>data = v, maxAgeMS = maxAgeInMS d, createdAt = t\<rparr>]"
  from 2 n st have "trace (snd (resumeRefresh d p s)) = trace s @ ?evs"
    and "\<forall>b. heap (snd (resumeRefresh d p s)) b = heap s b"
    by (simp_all add: Let_def)
  moreover have "producerCalls ?evs = []" "\<forall>k. StorageGet k \<notin> set ?evs"
    "\<forall>b. \<not> nextCalledOn b ?evs" by auto
  ultimately show ?thesis by blast
next
  case (3 d' a v e s')
  then have "trace (snd (resumeRefresh d p s)) = trace s @ (SubjectError a e #
      map (\<lambda>(sid, n). Deliver sid n) (snd (error_RS e (subject (heap s a)))))"
    and "\<forall>b. addrOf p \<noteq> Some b \<longrightarrow> heap (snd (resumeRefresh d p s)) b = heap s b"
    by (simp_all add: subjectError_shape)
  moreover have "producerCalls (SubjectError a e #
      map (\<lambda>(sid, n). Deliver sid n) (snd (error_RS e (subject (heap s a))))) = []"
    "\<forall>k. StorageGet k \<notin> set (SubjectError a e #
      map (\<lambda>(sid, n). Deliver sid n) (snd (error_RS e (subject (heap s a)))))"
    "\<forall>b. \<not> nextCalledOn b (SubjectError a e #
      map (\<lambda>(sid, n). Deliver sid n) (snd (error_RS e (subject (heap s a)))))"
    by auto
  ultimately show ?thesis by blast
next
  case (4 d' a v u s')
  let ?evs = "SubjectNext a v #
      map (\<lambda>(sid, n). Deliver sid n) (snd (next_RS v (subject (heap s a))))"
  from 4 have "trace (snd (resumeRefresh d p s)) = trace s @ ?evs"
    and "\<forall>b. addrOf p \<noteq> Some b \<longrightarrow> heap (snd (resumeRefresh d p s)) b = heap s b"
    by (simp_all add: setCacheData_shape)
  moreover have "producerCalls ?evs = []" "\<forall>k. StorageGet k \<notin> set ?evs" by auto
  moreover have "\<forall>b. addrOf p \<noteq> Some b \<longrightarrow> \<not> nextCalledOn b ?evs" using 4 by auto
  ultimately show ?thesis by blast
next
  case (5 d' a s')
  then have "trace (snd (resumeRefresh d p s)) = trace s @ []"
    "\<forall>b. heap (snd (resumeRefresh d p s)) b = heap s b" by simp_all
  then show ?thesis by (metis producerCalls_simps(1) nextCalledOn_simps(1) empty_iff list.set(1))
next
  case (6 d' s')
  then have "trace (snd (resumeRefresh d p s)) = trace s @ []"
    "\<forall>b. heap (snd (resumeRefresh d p s)) b = heap s b" by simp_all
  then show ?thesis by (metis producerCalls_simps(1) nextCalledOn_simps(1) empty_iff list.set(1))
qed

lemma failedWith_subjectError:
  assumes ext: "take (length (trace s0)) (trace s) = trace s0"
    and h: "heap s a = heap s0 a" and nn: "\<not> nextCalledOn a (newEvents s0 s)"
  shows "failedWith s0 (subjectError a e s) a e"
proof -
  let ?evs = "SubjectError a e #
      map (\<lambda>(sid, n). Deliver sid n) (snd (error_RS e (subject (heap s a))))"
  have tr: "trace (subjectError a e s) = trace s @ ?evs" by (simp add: subjectError_shape)
  have ne: "newEvents s0 (subjectError a e s) = newEvents s0 s @ ?evs"
    by (rule newEvents_step(1)[OF ext tr])
  have "SubjectError a e \<in> set (newEvents s0 (subjectError a e s))" by (simp add: ne)
  moreover have "\<not> nextCalledOn a (newEvents s0 (subjectError a e s))" using nn by (simp add: ne)
  moreover have "heap (subjectError a e s) a =
      (heap s0 a)\<lparr>subject := fst (error_RS e (subject (heap s0 a)))\<rparr>"
    using h by (simp add: subjectError_shape)
  ultimately show ?thesis unfolding failedWith_def by blast
qed

lemma stored_subjectError:
  assumes ext: "take (length (trace s0)) (trace s) = trace s0"
    and w: "ev \<in> set (newEvents s0 s)"
  shows "ev \<in> set (newEvents s0 (subjectError a e s))"
proof -
  let ?evs = "SubjectError a e #
      map (\<lambda>(sid, n). Deliver sid n) (snd (error_RS e (subject (heap s a))))"
  have tr: "trace (subjectError a e s) = trace s @ ?evs" by (simp add: subjectError_shape)
  have "newEvents s0 (subjectError a e s) = newEvents s0 s @ ?evs"
    by (rule newEvents_step(1)[OF ext tr])
  with w show ?thesis by simp
qed

lemma taskOk_resumed:
  assumes ext: "take (length (trace s0)) (trace s) = trace s0" and ok: "taskOk d s0 s p0 p"
  shows "taskOk d s0 (snd (resumeRefresh d p s)) p0 (fst (resumeRefresh d p s))"
proof (cases "(d, p, s)" rule: resumeRefresh.cases)
  case (1 d' a e s')
  from 1 ok have p0: "p0 = AwaitProducer a (Inl e)"
    and h: "heap s a = heap s0 a" and nn: "\<not> nextCalledOn a (newEvents s0 s)" by simp_all
  from failedWith_subjectError[OF ext h nn, of e]
  have "pipelineCompleted d s0 (subjectError a e s) a (Inl e)"
    by (simp add: pipelineCompleted_def)
  with 1 p0 show ?thesis by simp
next
  case (2 d' a v s')
  obtain t w2 where n: "now d (world s) = (t, w2)" by (cases "now d (world s)")
  obtain r2 w3 where st: "storeAsync d w2 (key (heap s a))
      \<lparr>data = v, maxAgeMS = maxAgeInMS d, createdAt = t\<rparr> = (r2, w3)"
    by (cases "storeAsync d w2 (key (heap s a))
      \<lparr>data = v, maxAgeMS = maxAgeInMS d, createdAt = t\<rparr>")
  let ?ev = "StorageStore (key (heap s a)) \<lparr>data = v, maxAgeMS = maxAgeInMS d, createdAt = t\<rparr>"
  let ?s' = "s\<lparr>world := w3, trace := trace s @ [?ev]\<rparr>"
  from 2 n st have res: "resumeRefresh d p s = (AwaitStore a v r2, ?s')" by (simp add: Let_def)
  from 2 ok have p0: "p0 = AwaitProducer a (Inr v)"
    and h: "heap s a = heap s0 a" and nn: "\<not> nextCalledOn a (newEvents s0 s)" by simp_all
  have ne: "newEvents s0 ?s' = newEvents s0 s @ [?ev]"
    by (rule newEvents_step(1)[OF ext]) simp
  have "StorageStore (key (heap s0 a)) \<lparr>data = v, maxAgeMS = maxAgeInMS d, createdAt = t\<rparr>
          \<in> set (newEvents s0 ?s')"
    unfolding ne using h by simp
  then have "\<exists>t. StorageStore (key (heap s0 a)) \<lparr>data = v, maxAgeMS = maxAgeInMS d, createdAt = t\<rparr>
          \<in> set (newEvents s0 ?s')" by blast
  moreover have "\<not> nextCalledOn a (newEvents s0 ?s')" using nn by (simp add: ne)
  moreover have "heap ?s' a = heap s0 a" using h by simp
  ultimately show ?thesis unfolding res using p0 by simp
next
  case (3 d' a v e s')
  from 3 ok have p0: "p0 = AwaitProducer a (Inr v)"
    and h: "heap s a = heap s0 a" and nn: "\<not> nextCalledOn a (newEvents s0 s)"
    and w: "\<exists>t. StorageStore (key (heap s0 a)) \<lparr>data = v, maxAgeMS = maxAgeInMS d, createdAt = t\<rparr>
          \<in> set (newEvents s0 s)" by simp_all
  from w obtain t where "StorageStore (key (heap s0 a))
      \<lparr>data = v, maxAgeMS = maxAgeInMS d, createdAt = t\<rparr> \<in> set (newEvents s0 s)" by blast
  from stored_subjectError[OF ext this, of a e]
  have "\<exists>t. StorageStore (key (heap s0 a)) \<lparr>data = v, maxAgeMS = maxAgeInMS d, createdAt = t\<rparr>
          \<in> set (newEvents s0 (subjectError a e s))" by blast
  moreover from failedWith_subjectError[OF ext h nn, of e]
  have "\<exists>e'. failedWith s0 (subjectError a e s) a e'" by blast
  ultimately have "pipelineCompleted d s0 (subjectError a e s) a (Inr v)"
    by (simp add: pipelineCompleted_def)
  with 3 p0 show ?thesis by simp
next
  case (4 d' a v u s')
  let ?evs = "SubjectNext a v #
      map (\<lambda>(sid, n). Deliver sid n) (snd (next_RS v (subject (heap s a))))"
  have tr: "trace (setCacheData a v s) = trace s @ ?evs" by (simp add: setCacheData_shape)
  from 4 ok have p0: "p0 = AwaitProducer a (Inr v)" and h: "heap s a = heap s0 a"
    and w: "\<exists>t. StorageStore (key (heap s0 a)) \<lparr>data = v, maxAgeMS = maxAgeInMS d, createdAt = t\<rparr>
          \<in> set (newEvents s0 s)" by simp_all
  have ne: "newEvents s0 (setCacheData a v s) = newEvents s0 s @ ?evs"
    by (rule newEvents_step(1)[OF ext tr])
  from w have "\<exists>t. StorageStore (key (heap s0 a))
      \<lparr>data = v, maxAgeMS = maxAgeInMS d, createdAt = t\<rparr> \<in> set (newEvents s0 (setCacheData a v s))"
    by (auto simp: ne)
  moreover have "SubjectNext a v \<in> set (newEvents s0 (setCacheData a v s))" by (simp add: ne)
  moreover have "heap (setCacheData a v s) a =
      (heap s0 a)\<lparr>subject := fst (next_RS v (subject (heap s0 a))), initialized := True\<rparr>"
    using h by (simp add: setCacheData_shape)
  ultimately have "pipelineCompleted d s0 (setCacheData a v s) a (Inr v)"
    by (simp add: pipelineCompleted_def)
  with 4 p0 show ?thesis by simp
next
  case (5 d' a s')
  with ok show ?thesis by simp
next
  case (6 d' s')
  with ok show ?thesis by simp
qed

text \<open>A continuation of another refresh leaves a task as it is.\<close>

lemma failedWith_frame:
  assumes "failedWith s0 s a e" and ne: "newEvents s0 s' = newEvents s0 s @ evs"
    and h: "heap s' a = heap s a" and nn: "\<not> nextCalledOn a evs"
  shows "failedWith s0 s' a e"
  using assms by (simp add: failedWith_def)

lemma taskOk_frame:
  assumes ok: "taskOk d s0 s p0 q"
    and ext: "take (length (trace s0)) (trace s) = trace s0"
    and tr: "trace s' = trace s @ evs"
    and fr: "\<And>b. addrOf q = Some b \<Longrightarrow> heap s' b = heap s b \<and> \<not> nextCalledOn b evs"
  shows "taskOk d s0 s' p0 q"
proof -
  have ne: "newEvents s0 s' = newEvents s0 s @ evs" by (rule newEvents_step(1)[OF ext tr])
  show ?thesis
  proof (cases q)
    case NoEntry
    with ok show ?thesis by simp
  next
    case (AwaitProducer a r)
    with ok fr[of a] show ?thesis by (simp add: ne)
  next
    case (AwaitStore a v r)
    with ok fr[of a] show ?thesis by (auto simp: ne)
  next
    case (Finished a)
    with ok obtain r where p0: "p0 = AwaitProducer a r" and c: "pipelineCompleted d s0 s a r"
      by auto
    from fr[of a] Finished have h: "heap s' a = heap s a" and nn: "\<not> nextCalledOn a evs" by simp_all
    have "pipelineCompleted d s0 s' a r"
    proof (cases r)
      case (Inl e)
      with c have "failedWith s0 s a e" by (simp add: pipelineCompleted_def)
      from failedWith_frame[OF this ne h nn] Inl show ?thesis by (simp add: pipelineCompleted_def)
    next
      case (Inr v)
      with c have st: "\<exists>t. StorageStore (key (heap s0 a))
                  \<lparr>data = v, maxAgeMS = maxAgeInMS d, createdAt = t\<rparr> \<in> set (newEvents s0 s)"
        and out: "SubjectNext a v \<in> set (newEvents s0 s) \<and>
           heap s a = (heap s0 a)\<lparr>subject := fst (next_RS v (subject (heap s0 a))),
                                   initialized := True\<rparr>
           \<or> (\<exists>e. failedWith s0 s a e)"
        by (simp_all add: pipelineCompleted_def)
      from st have st': "\<exists>t. StorageStore (key (heap s0 a))
                  \<lparr>data = v, maxAgeMS = maxAgeInMS d, createdAt = t\<rparr> \<in> set (newEvents s0 s')"
        by (auto simp: ne)
      from out have "SubjectNext a v \<in> set (newEvents s0 s') \<and>
           heap s' a = (heap s0 a)\<lparr>subject := fst (next_RS v (subject (heap s0 a))),
                                   initialized := True\<rparr>
           \<or> (\<exists>e. failedWith s0 s' a e)"
      proof
        assume "SubjectNext a v \<in> set (newEvents s0 s) \<and>
           heap s a = (heap s0 a)\<lparr>subject := fst (next_RS v (subject (heap s0 a))),
                                   initialized := True\<rparr>"
        then show ?thesis using h by (simp add: ne)
      next
        assume "\<exists>e. failedWith s0 s a e"
        then obtain e where "failedWith s0 s a e" by blast
        from failedWith_frame[OF this ne h nn] show ?thesis by blast
      qed
      with st' Inr show ?thesis by (auto simp: pipelineCompleted_def)
    qed
    with Finished p0 show ?thesis by simp
  qed
qed

lemma resumeAt_nth:
  "length (fst (resumeAt d i (ps, s))) = length ps"
  "j < length ps \<Longrightarrow> fst (resumeAt d i (ps, s)) ! j =
     (if j = i then fst (resumeRefresh d (ps ! i) s) else ps ! j)"
  "snd (resumeAt d i (ps, s)) = (if i < length ps then snd (resumeRefresh d (ps ! i) s) else s)"
  by (simp_all add: resumeAt_def split_beta)

lemma tasksOk_resumeAt:
  assumes "tasksOk d s0 ps0 (ps, s)"
  shows "tasksOk d s0 ps0 (resumeAt d i (ps, s))"
proof (cases "i < length ps")
  case False
  then have "resumeAt d i (ps, s) = (ps, s)" by (simp add: resumeAt_def)
  with assms show ?thesis by simp
next
  case True
  let ?p = "ps ! i"
  let ?s' = "snd (resumeRefresh d ?p s)"
  let ?ps' = "fst (resumeAt d i (ps, s))"
  from assms have ext: "take (length (trace s0)) (trace s) = trace s0"
    and dist: "addrsDistinct ps" and len: "length ps0 = length ps"
    and ok: "\<And>j. j < length ps \<Longrightarrow> taskOk d s0 s (ps0 ! j) (ps ! j)"
    by (simp_all add: tasksOk_def)
  obtain evs where tr: "trace ?s' = trace s @ evs"
    and fr: "\<And>b. addrOf ?p \<noteq> Some b \<Longrightarrow> heap ?s' b = heap s b \<and> \<not> nextCalledOn b evs"
    using resumeRefresh_frame[of d ?p s] by blast
  have s': "snd (resumeAt d i (ps, s)) = ?s'" using True by (simp add: resumeAt_nth)
  have ext': "take (length (trace s0)) (trace ?s') = trace s0"
    by (rule newEvents_step(2)[OF ext tr])
  have addr: "\<And>j. j < length ps \<Longrightarrow> addrOf (?ps' ! j) = addrOf (ps ! j)"
    by (simp add: resumeAt_nth addrOf_resumeRefresh)
  have dist': "addrsDistinct ?ps'"
    unfolding addrsDistinct_def
  proof (intro allI impI)
    fix i' j a
    assume h: "i' < length ?ps' \<and> j < length ?ps' \<and> i' \<noteq> j \<and> addrOf (?ps' ! i') = Some a"
    then have l: "i' < length ps" "j < length ps" "i' \<noteq> j"
      by (simp_all add: resumeAt_nth(1))
    from h addr[OF l(1)] have "addrOf (ps ! i') = Some a" by simp
    with l have "i' < length ps" "j < length ps" "i' \<noteq> j" "addrOf (ps ! i') = Some a"
      by simp_all
    then have "addrOf (ps ! j) \<noteq> Some a" using dist unfolding addrsDistinct_def by blast
    then show "addrOf (?ps' ! j) \<noteq> Some a" using \<open>j < length ps\<close> addr by simp
  qed
  have ok': "\<And>j. j < length ps \<Longrightarrow> taskOk d s0 ?s' (ps0 ! j) (?ps' ! j)"
  proof -
    fix j assume j: "j < length ps"
    show "taskOk d s0 ?s' (ps0 ! j) (?ps' ! j)"
    proof (cases "j = i")
      case True
      then show ?thesis using j taskOk_resumed[OF ext ok[OF j]] by (simp add: resumeAt_nth)
    next
      case False
      have "\<And>b. addrOf (ps ! j) = Some b \<Longrightarrow> heap ?s' b = heap s b \<and> \<not> nextCalledOn b evs"
      proof -
        fix b assume b: "addrOf (ps ! j) = Some b"
        have "addrOf ?p \<noteq> Some b"
          using dist j True False b unfolding addrsDistinct_def by metis
        then show "heap ?s' b = heap s b \<and> \<not> nextCalledOn b evs" by (rule fr)
      qed
      from taskOk_frame[OF ok[OF j] ext tr this] False j show ?thesis
        by (simp add: resumeAt_nth)
    qed
  qed
  show ?thesis
    unfolding tasksOk_def using ext' dist' ok' len by (simp add: s' resumeAt_nth(1))
qed

lemma tasksOk_resumeAll:
  "tasksOk d s0 ps0 (ps, s) \<Longrightarrow> tasksOk d s0 ps0 (resumeAll d order ps s)"
proof (induction order arbitrary: ps s)
  case Nil
  then show ?case by (simp add: resumeAll_Nil)
next
  case (Cons i order)
  from tasksOk_resumeAt[OF Cons.prems, of i]
  have "tasksOk d s0 ps0 (fst (resumeAt d i (ps, s)), snd (resumeAt d i (ps, s)))" by simp
  from Cons.IH[OF this] show ?case by (simp add: resumeAll_Cons)
qed

text \<open>Every continuation runs: after the settle order and two runs through, no refresh
  has a stage left.\<close>

lemma resumeAll_length: "length (fst (resumeAll d order ps s)) = length ps"
  by (induction order arbitrary: ps s) (simp_all add: resumeAll_Nil resumeAll_Cons resumeAt_nth)

lemma resumeAll_addrOf:
  "j < length ps \<Longrightarrow> addrOf (fst (resumeAll d order ps s) ! j) = addrOf (ps ! j)"
proof (induction order arbitrary: ps s)
  case Nil
  show ?case by (simp add: resumeAll_Nil)
next
  case (Cons i order)
  have "j < length (fst (resumeAt d i (ps, s)))" using Cons.prems by (simp add: resumeAt_nth)
  from Cons.IH[OF this, of "snd (resumeAt d i (ps, s))"] Cons.prems
  show ?case by (simp add: resumeAll_Cons resumeAt_nth addrOf_resumeRefresh)
qed

lemma resumeAll_stagesLeft:
  "j < length ps \<Longrightarrow>
   stagesLeft (fst (resumeAll d order ps s) ! j) \<le> stagesLeft (ps ! j) - count_list order j"
proof (induction order arbitrary: ps s)
  case Nil
  show ?case by (simp add: resumeAll_Nil)
next
  case (Cons i order)
  let ?ps' = "fst (resumeAt d i (ps, s))"
  have j': "j < length ?ps'" using Cons.prems by (simp add: resumeAt_nth)
  from Cons.IH[OF j', of "snd (resumeAt d i (ps, s))"]
  have ih: "stagesLeft (fst (resumeAll d (i # order) ps s) ! j)
             \<le> stagesLeft (?ps' ! j) - count_list order j"
    by (simp add: resumeAll_Cons)
  have "stagesLeft (?ps' ! j) \<le> stagesLeft (ps ! j) - (if i = j then 1 else 0)"
    using Cons.prems stagesLeft_resumeRefresh[of d "ps ! i" s] by (auto simp: resumeAt_nth)
  with ih show ?case by (cases "i = j") auto
qed

lemma count_list_upt: "count_list [0..<n] j = (if j < n then 1 else 0)"
  by (induction n) auto

lemma resumeAll_settled:
  assumes "j < length ps"
  shows "stagesLeft (fst (resumeAll d (order @ [0..<length ps] @ [0..<length ps]) ps s) ! j) = 0"
proof -
  have "count_list (order @ [0..<length ps] @ [0..<length ps]) j \<ge> 2"
    using assms by (simp add: count_list_upt)
  moreover have "stagesLeft (ps ! j) \<le> 2" by (rule stagesLeft_le2)
  ultimately show ?thesis
    using resumeAll_stagesLeft[OF assms, of d "order @ [0..<length ps] @ [0..<length ps]" s]
    by linarith
qed

lemma settled_Finished:
  "stagesLeft p = 0 \<Longrightarrow> addrOf p = Some a \<Longrightarrow> p = Finished a"
  by (cases p rule: stagesLeft.cases) simp_all

subsection \<open>Starting the refreshes\<close>

lemma nextCalledOn_calls [simp]:
  "nextCalledOn a (map (\<lambda>b. ProducerCall (f b) (g b)) bs) = False"
  by (induction bs) simp_all

lemma producerCalls_calls [simp]:
  "producerCalls (map (\<lambda>b. ProducerCall (f b) (g b)) bs) = map (\<lambda>b. (f b, g b)) bs"
  by (induction bs) simp_all

lemma set_map_filter: "set (List.map_filter f xs) = {y. \<exists>x \<in> set xs. f x = Some y}"
  by (induction xs) (auto simp: map_filter_simps split: option.splits)

text \<open>Starting the callbacks: the producers are called in the order of the keys, and
  nothing else happens.\<close>

lemma startAll_effect:
  "heap (snd (startAll d ks s)) = heap s \<and>
   cacheStore (snd (startAll d ks s)) = cacheStore s \<and>
   nextAddr (snd (startAll d ks s)) = nextAddr s \<and>
   trace (snd (startAll d ks s)) =
     trace s @ map (\<lambda>a. ProducerCall (callContext (heap s a)) (lastArgs (heap s a)))
                 (List.map_filter (map_of (cacheStore s)) ks) \<and>
   map addrOf (fst (startAll d ks s)) = map (map_of (cacheStore s)) ks \<and>
   (\<forall>p \<in> set (fst (startAll d ks s)). p = NoEntry \<or> (\<exists>a r. p = AwaitProducer a r))"
proof (induction ks arbitrary: s)
  case Nil
  show ?case by (simp add: map_filter_simps)
next
  case (Cons k ks)
  show ?case
  proof (cases "map_of (cacheStore s) k")
    case None
    then have st: "startIfPresent d k s = (NoEntry, s)" by (simp add: startIfPresent_def)
    from Cons.IH[of s] None show ?thesis
      by (simp add: st split_beta map_filter_simps)
  next
    case (Some a)
    let ?s1 = "snd (startRefresh d a s)"
    have st: "startIfPresent d k s = startRefresh d a s"
      using Some by (simp add: startIfPresent_def)
    have f: "heap ?s1 = heap s" "cacheStore ?s1 = cacheStore s" "nextAddr ?s1 = nextAddr s"
      "trace ?s1 = trace s @ [ProducerCall (callContext (heap s a)) (lastArgs (heap s a))]"
      "\<exists>r. fst (startRefresh d a s) = AwaitProducer a r"
      by (simp_all add: startRefresh_def Let_def split_beta)
    from Cons.IH[of ?s1] f Some show ?thesis
      by (auto simp: st split_beta map_filter_simps)
  qed
qed

lemma same_object_same_key:
  assumes "distinct (map snd st)" and "map_of st k1 = Some a" and "map_of st k2 = Some a"
  shows "k1 = k2"
proof -
  from assms(2,3) have m: "(k1, a) \<in> set st" "(k2, a) \<in> set st" by (auto dest: map_of_SomeD)
  from assms(1) have "inj_on snd (set st)" by (simp add: distinct_map)
  from inj_onD[OF this _ m] show ?thesis by simp
qed

lemma startAll_addrsDistinct:
  assumes "distinct ks" and "distinct (map snd (cacheStore s))"
  shows "addrsDistinct (fst (startAll d ks s))"
proof -
  let ?ps = "fst (startAll d ks s)"
  have m: "map addrOf ?ps = map (map_of (cacheStore s)) ks" using startAll_effect[of d ks s] by simp
  then have len: "length ?ps = length ks" by (metis length_map)
  have nth: "\<And>i. i < length ks \<Longrightarrow> addrOf (?ps ! i) = map_of (cacheStore s) (ks ! i)"
  proof -
    fix i assume i: "i < length ks"
    then have "map addrOf ?ps ! i = map (map_of (cacheStore s)) ks ! i" using m by simp
    with i len show "addrOf (?ps ! i) = map_of (cacheStore s) (ks ! i)" by simp
  qed
  show ?thesis
    unfolding addrsDistinct_def
  proof (intro allI impI notI)
    fix i j a
    assume h: "i < length ?ps \<and> j < length ?ps \<and> i \<noteq> j \<and> addrOf (?ps ! i) = Some a"
      and j: "addrOf (?ps ! j) = Some a"
    from h len have i': "i < length ks" and j': "j < length ks" by simp_all
    from h nth[OF i'] j nth[OF j'] have "map_of (cacheStore s) (ks ! i) = Some a"
      "map_of (cacheStore s) (ks ! j) = Some a" by simp_all
    from same_object_same_key[OF assms(2) this] have "ks ! i = ks ! j" .
    with assms(1) i' j' have "i = j" by (simp add: nth_eq_iff_index_eq)
    with h show False by simp
  qed
qed

lemma sweep_distinct_objects:
  "distinct (map fst (cacheStore s)) \<Longrightarrow> distinct (map snd (cacheStore s)) \<Longrightarrow>
   distinct (map snd (cacheStore (removeUnobservedCachesAsync except s)))"
  by (simp add: sweep_store distinct_map_filter)

lemma resumeAll_events:
  "\<exists>evs. trace (snd (resumeAll d order ps s)) = trace s @ evs \<and>
     producerCalls evs = [] \<and> (\<forall>k. StorageGet k \<notin> set evs)"
proof (induction order arbitrary: ps s)
  case Nil
  have "trace (snd (resumeAll d [] ps s)) = trace s @ []" by (simp add: resumeAll_Nil)
  then show ?case by (metis producerCalls_simps(1) empty_iff list.set(1))
next
  case (Cons i order)
  let ?s1 = "snd (resumeAt d i (ps, s))"
  have "\<exists>evs. trace ?s1 = trace s @ evs \<and> producerCalls evs = [] \<and> (\<forall>k. StorageGet k \<notin> set evs)"
  proof (cases "i < length ps")
    case True
    then show ?thesis using resumeRefresh_frame[of d "ps ! i" s] by (auto simp: resumeAt_nth)
  next
    case False
    then have "trace ?s1 = trace s @ []" by (simp add: resumeAt_nth)
    then show ?thesis by (metis producerCalls_simps(1) empty_iff list.set(1))
  qed
  then obtain evs1 where 1: "trace ?s1 = trace s @ evs1" "producerCalls evs1 = []"
    "\<forall>k. StorageGet k \<notin> set evs1" by blast
  from Cons.IH[of "fst (resumeAt d i (ps, s))" ?s1]
  obtain evs2 where 2: "trace (snd (resumeAll d (i # order) ps s)) = trace ?s1 @ evs2"
    "producerCalls evs2 = []" "\<forall>k. StorageGet k \<notin> set evs2"
    by (auto simp: resumeAll_Cons)
  have "trace (snd (resumeAll d (i # order) ps s)) = trace s @ (evs1 @ evs2)"
    using 1(1) 2(1) by simp
  moreover have "producerCalls (evs1 @ evs2) = []" using 1(2) 2(2) by simp
  moreover have "\<forall>k. StorageGet k \<notin> set (evs1 @ evs2)" using 1(3) 2(3) by simp
  ultimately show ?case by blast
qed

subsection \<open>The shape of the store over sequences of operations\<close>

lemma storeWellFormed_new: "storeWellFormed (new_LocalCacheManager c w)"
  by (simp add: storeWellFormed_def new_LocalCacheManager_def storeAllocated_def)

lemma storeWellFormed_keepsEntries:
  "keepsEntries s s' \<Longrightarrow> storeWellFormed s \<Longrightarrow> storeWellFormed s'"
  by (simp add: storeWellFormed_def keepsEntries_def storeAllocated_def)

lemma storeWellFormed_sweep:
  "storeWellFormed s \<Longrightarrow> storeWellFormed (removeUnobservedCachesAsync except s)"
  by (simp add: storeWellFormed_def sweep_distinct sweep_distinct_objects storeAllocated_sweep)

lemma storeWellFormed_getAndEnsureCache:
  assumes "storeWellFormed s"
  shows "storeWellFormed (snd (getAndEnsureCache k args ctx s))"
proof (cases "map_of (cacheStore s) k")
  case None
  have "nextAddr s \<notin> snd ` set (cacheStore s)"
    using assms by (auto simp: storeWellFormed_def storeAllocated_iff)
  with assms None show ?thesis
    using getAndEnsureCache_distinct[of s k args ctx] storeAllocated_getAndEnsureCache(1)[of s k args ctx]
    by (simp add: storeWellFormed_def getAndEnsureCache_absent)
next
  case (Some a)
  with assms show ?thesis by (simp add: getAndEnsureCache_present)
qed

lemma storeWellFormed_invalidate:
  assumes "storeWellFormed s"
  shows "storeWellFormed (snd (invalidateAndUpdateAsync d cacheKey s))"
proof (cases rule: invalidate_cases[of d cacheKey s])
  case (rejected w)
  have "keepsEntries (removeUnobservedCachesAsync None s) (snd (invalidateAndUpdateAsync d cacheKey s))"
    unfolding rejected by (rule keepsEntries_world_trace)
  from storeWellFormed_keepsEntries[OF this storeWellFormed_sweep[OF assms]] show ?thesis .
next
  case (refreshed w)
  let ?s1 = "removeUnobservedCachesAsync None s"
  have "keepsEntries ?s1 (?s1\<lparr>world := w, trace := trace s @ [StorageRemove
              (allToInvalidateAndUpdate d cacheKey ?s1)]\<rparr>)"
    by (rule keepsEntries_world_trace)
  from keepsEntries_trans[OF this keepsEntries_pipelineSteps[OF refreshed]]
  have "keepsEntries ?s1 (snd (invalidateAndUpdateAsync d cacheKey s))" .
  from storeWellFormed_keepsEntries[OF this storeWellFormed_sweep[OF assms]] show ?thesis .
qed

lemma storeWellFormed_apply_op:
  assumes "storeWellFormed s"
  shows "storeWellFormed (apply_op d s op)"
proof (cases op)
  case (Read k args ctx)
  let ?s1 = "removeUnobservedCachesAsync (Some k) (snd (getAndEnsureCache k args ctx s))"
  have 1: "storeWellFormed ?s1"
    by (rule storeWellFormed_sweep[OF storeWellFormed_getAndEnsureCache[OF assms]])
  have "apply_op d s op =
      snd (refreshCacheIfOutOfDataAsync d k (fst (getAndEnsureCache k args ctx s)) ?s1)"
    using Read by (simp add: getCache_def getCache_sync_def split_beta)
  with storeWellFormed_keepsEntries[OF keepsEntries_staleness 1] show ?thesis by simp
next
  case (ReadPending k args ctx)
  then show ?thesis
    using storeWellFormed_sweep[OF storeWellFormed_getAndEnsureCache[OF assms]]
    by (simp add: getCache_sync_def split_beta)
next
  case (StalenessCheck k a)
  then show ?thesis
    using storeWellFormed_keepsEntries[OF keepsEntries_staleness assms] assms by simp
next
  case (Invalidate cacheKey)
  then show ?thesis by (simp add: storeWellFormed_invalidate[OF assms])
next
  case (Subscribe a)
  then show ?thesis
    using storeWellFormed_keepsEntries[OF keepsEntries_subscribe assms] assms by simp
next
  case (Unsubscribe a sid)
  then show ?thesis
    using storeWellFormed_keepsEntries[OF keepsEntries_unsubscribe assms] assms by simp
qed

lemma storeWellFormed_run: "storeWellFormed s \<Longrightarrow> storeWellFormed (run d ops s)"
proof (induction ops arbitrary: s)
  case Nil
  then show ?case by (simp add: run_def)
next
  case (Cons op ops)
  from Cons.IH[OF storeWellFormed_apply_op[OF Cons.prems]] show ?case by (simp add: run_def)
qed

subsection \<open>What an invalidation does\<close>




section \<open>Subscribers\<close>

lemma trimBuffer_buffer:
  "buffer (trimBuffer r) = (if buffer r = [] then [] else [last (buffer r)])"
proof (cases "buffer r" rule: rev_cases)
  case Nil
  then show ?thesis by (simp add: trimBuffer_def)
next
  case (snoc ys y)
  then show ?thesis by (cases ys) (simp_all add: trimBuffer_def)
qed

lemma trimBuffer_idem [simp]: "trimBuffer (trimBuffer r) = trimBuffer r"
  by (simp add: trimBuffer_def)

lemma trimBuffer_short: "length (buffer r) \<le> 1 \<Longrightarrow> trimBuffer r = r"
  by (simp add: trimBuffer_def)

lemma error_RS_stopped: "isStopped r \<Longrightarrow> error_RS e r = (r, [])"
  by (simp add: error_RS_def)

lemma subscribe_RS_live:
  "\<not> isStopped r \<Longrightarrow> thrownError r = None \<Longrightarrow>
   subscribe_RS sid r =
     ((trimBuffer r)\<lparr>observers := observers r @ [sid]\<rparr>,
      map (\<lambda>v. (sid, NextN v)) (buffer (trimBuffer r)))"
  by (simp add: subscribe_RS_def Let_def hasError_def)

lemma subscribe_RS_failed:
  "thrownError r = Some e \<Longrightarrow>
   subscribe_RS sid r =
     (trimBuffer r, map (\<lambda>v. (sid, NextN v)) (buffer (trimBuffer r)) @ [(sid, ErrorN e)])"
  by (simp add: subscribe_RS_def Let_def hasError_def)

text \<open>
  Claim C8. On a live subject (not stopped, no error), a subscriber that attaches after a
  value \<open>v\<close> was published receives at once exactly \<open>v\<close>, whatever was published before
  it, and receives the next published value after it, together with the earlier
  observers. On any subject, stopped or not, what a new subscriber receives starts with
  the last buffered value. A subscriber that attaches while nothing has been published receives
  nothing at once and receives the first value published afterwards. For the manager:
  subscribing to an entry right after \<open>_setCacheData\<close> published \<open>v\<close> on its live subject
  adds the delivery of \<open>v\<close> to the new subscriber and nothing else, and subscribing to an
  entry that \<open>_getAndEnsureCache\<close> has just made adds nothing.
\<close>

theorem replay_of_latest:
  "(\<not> isStopped r \<and> thrownError r = None \<longrightarrow>
      snd (subscribe_RS sid (fst (next_RS v r))) = [(sid, NextN v)]
      \<and> snd (next_RS v' (fst (subscribe_RS sid (fst (next_RS v r))))) =
          map (\<lambda>ob. (ob, NextN v')) (observers r @ [sid]))
   \<and> (buffer r \<noteq> [] \<longrightarrow> hd (snd (subscribe_RS sid r)) = (sid, NextN (last (buffer r))))
   \<and> (\<not> isStopped r \<and> thrownError r = None \<and> buffer r = [] \<longrightarrow>
      snd (subscribe_RS sid r) = []
      \<and> snd (next_RS v (fst (subscribe_RS sid r))) =
          map (\<lambda>ob. (ob, NextN v)) (observers r @ [sid]))
   \<and> (\<not> isStopped (subject (heap s a)) \<and> thrownError (subject (heap s a)) = None \<longrightarrow>
      newEvents (setCacheData a v s) (snd (subscribe a (setCacheData a v s))) =
        [Deliver (nextSubscriber s) (NextN v)])
   \<and> (map_of (cacheStore s) k = None \<longrightarrow>
      newEvents (snd (getAndEnsureCache k args ctx s))
        (snd (subscribe (fst (getAndEnsureCache k args ctx s))
                (snd (getAndEnsureCache k args ctx s)))) = [])"
proof (intro conjI impI)
  assume l: "\<not> isStopped r \<and> thrownError r = None"
  then have n: "next_RS v r = (r\<lparr>buffer := [v]\<rparr>, map (\<lambda>ob. (ob, NextN v)) (observers r))"
    by (simp add: next_RS_live)
  have sub: "subscribe_RS sid (r\<lparr>buffer := [v]\<rparr>) =
      (r\<lparr>buffer := [v], observers := observers r @ [sid]\<rparr>, [(sid, NextN v)])"
    using l by (simp add: subscribe_RS_live trimBuffer_def)
  show "snd (subscribe_RS sid (fst (next_RS v r))) = [(sid, NextN v)]"
    by (simp add: n sub)
  show "snd (next_RS v' (fst (subscribe_RS sid (fst (next_RS v r))))) =
          map (\<lambda>ob. (ob, NextN v')) (observers r @ [sid])"
    using l by (simp add: n sub next_RS_live)
next
  assume "buffer r \<noteq> []"
  then show "hd (snd (subscribe_RS sid r)) = (sid, NextN (last (buffer r)))"
    by (simp add: subscribe_RS_def Let_def trimBuffer_buffer)
next
  assume l: "\<not> isStopped r \<and> thrownError r = None \<and> buffer r = []"
  then have sub: "subscribe_RS sid r = (r\<lparr>observers := observers r @ [sid]\<rparr>, [])"
    by (simp add: subscribe_RS_live trimBuffer_def)
  show "snd (subscribe_RS sid r) = []" by (simp add: sub)
  show "snd (next_RS v (fst (subscribe_RS sid r))) =
          map (\<lambda>ob. (ob, NextN v)) (observers r @ [sid])"
    using l by (simp add: sub next_RS_live)
next
  assume l: "\<not> isStopped (subject (heap s a)) \<and> thrownError (subject (heap s a)) = None"
  let ?r = "subject (heap s a)"
  have n: "next_RS v ?r = (?r\<lparr>buffer := [v]\<rparr>, map (\<lambda>ob. (ob, NextN v)) (observers ?r))"
    using l by (simp add: next_RS_live)
  have sub: "subscribe_RS (nextSubscriber s) (?r\<lparr>buffer := [v]\<rparr>) =
      (?r\<lparr>buffer := [v], observers := observers ?r @ [nextSubscriber s]\<rparr>,
       [(nextSubscriber s, NextN v)])"
    using l by (simp add: subscribe_RS_live trimBuffer_def)
  show "newEvents (setCacheData a v s) (snd (subscribe a (setCacheData a v s))) =
        [Deliver (nextSubscriber s) (NextN v)]"
    by (simp add: subscribe_shape newEvents_def setCacheData_shape n sub)
next
  assume "map_of (cacheStore s) k = None"
  then show "newEvents (snd (getAndEnsureCache k args ctx s))
        (snd (subscribe (fst (getAndEnsureCache k args ctx s))
                (snd (getAndEnsureCache k args ctx s)))) = []"
    by (simp add: getAndEnsureCache_absent subscribe_shape newEvents_def subscribe_RS_live
        new_ReplaySubject_def trimBuffer_def)
qed

theorem replay_of_latest_witness:
  "snd (subscribe_RS 4 (fst (next_RS (8::nat) ((new_ReplaySubject :: (nat, string) ReplaySubject)
         \<lparr>buffer := [7], observers := [3]\<rparr>)))) = [(4, NextN 8)]
   \<and> snd (next_RS (9::nat) (fst (subscribe_RS 4 (fst (next_RS 8
         ((new_ReplaySubject :: (nat, string) ReplaySubject)\<lparr>buffer := [7], observers := [3]\<rparr>))))))
       = [(3, NextN 9), (4, NextN 9)]
   \<and> hd (snd (subscribe_RS 4 ((new_ReplaySubject :: (nat, string) ReplaySubject)
         \<lparr>buffer := [7], observers := [3]\<rparr>))) = (4, NextN 7)
   \<and> snd (subscribe_RS 4 (new_ReplaySubject :: (nat, string) ReplaySubject)) = []
   \<and> snd (next_RS (7::nat) (fst (subscribe_RS 4 (new_ReplaySubject :: (nat, string) ReplaySubject))))
       = [(4, NextN 7)]
   \<and> newEvents (setCacheData 0 8 (exWith new_ReplaySubject False exWorld))
        (snd (subscribe 0 (setCacheData 0 8 (exWith new_ReplaySubject False exWorld))))
       = [Deliver 5 (NextN 8)]
   \<and> newEvents (snd (getAndEnsureCache ''A'' [1] ''svc'' exManager))
        (snd (subscribe (fst (getAndEnsureCache ''A'' [1] ''svc'' exManager))
                (snd (getAndEnsureCache ''A'' [1] ''svc'' exManager)))) = []"
proof -
  let ?r = "(new_ReplaySubject :: (nat, string) ReplaySubject)\<lparr>buffer := [7], observers := [3]\<rparr>"
  let ?n = "new_ReplaySubject :: (nat, string) ReplaySubject"
  have l1: "\<not> isStopped ?r \<and> thrownError ?r = None"
    by (simp add: new_ReplaySubject_def)
  have l2: "\<not> isStopped ?n \<and> thrownError ?n = None \<and> buffer ?n = []"
    by (simp add: new_ReplaySubject_def)
  have l3: "\<not> isStopped (subject (heap (exWith new_ReplaySubject False exWorld) 0))
      \<and> thrownError (subject (heap (exWith new_ReplaySubject False exWorld) 0)) = None"
    by (simp add: exWith_def exCache_def new_ReplaySubject_def)
  have l4: "map_of (cacheStore exManager) ''A'' = None"
    by (simp add: exManager_def new_LocalCacheManager_def)
  have o1: "observers ?r = [3]" "observers ?n = []" 
    by (simp_all add: new_ReplaySubject_def)
  have ns: "nextSubscriber (exWith new_ReplaySubject False exWorld) = 5"
    by (simp add: exWith_def)
  from replay_of_latest[of ?r 4 8 9 exManager 0 "''A''" "[1]" "''svc''"] l1 o1
  have 1: "snd (subscribe_RS 4 (fst (next_RS 8 ?r))) = [(4, NextN 8)]
      \<and> snd (next_RS 9 (fst (subscribe_RS 4 (fst (next_RS 8 ?r))))) = [(3, NextN 9), (4, NextN 9)]"
    by simp
  have b1: "buffer ?r = [7]" by (simp add: new_ReplaySubject_def)
  from replay_of_latest[of ?r 4 8 9 exManager 0 "''A''" "[1]" "''svc''"] b1
  have 5: "hd (snd (subscribe_RS 4 ?r)) = (4, NextN 7)"
    by simp
  from replay_of_latest[of ?n 4 7 7 exManager 0 "''A''" "[1]" "''svc''"] l2 o1
  have 2: "snd (subscribe_RS 4 ?n) = []
      \<and> snd (next_RS 7 (fst (subscribe_RS 4 ?n))) = [(4, NextN 7)]"
    by simp
  from replay_of_latest[of ?n 4 8 8 "exWith new_ReplaySubject False exWorld" 0 "''A''" "[1]" "''svc''"] l3 ns
  have 3: "newEvents (setCacheData 0 8 (exWith new_ReplaySubject False exWorld))
        (snd (subscribe 0 (setCacheData 0 8 (exWith new_ReplaySubject False exWorld))))
       = [Deliver 5 (NextN 8)]"
    by simp
  from replay_of_latest[of ?n 4 8 8 exManager 0 "''A''" "[1]" "''svc''"] l4
  have 4: "newEvents (snd (getAndEnsureCache ''A'' [1] ''svc'' exManager))
        (snd (subscribe (fst (getAndEnsureCache ''A'' [1] ''svc'' exManager))
                (snd (getAndEnsureCache ''A'' [1] ''svc'' exManager)))) = []"
    by simp
  from 1 2 3 4 5 show ?thesis by simp
qed

section \<open>Failed channels\<close>

lemma sameFailure_refl: "isStopped r \<Longrightarrow> sameFailure r r"
  by (simp add: sameFailure_def)

lemma sameFailure_trans: "sameFailure r r' \<Longrightarrow> sameFailure r' r'' \<Longrightarrow> sameFailure r r''"
  by (simp add: sameFailure_def)

lemma sameFailure_trim: "isStopped r \<Longrightarrow> sameFailure r (trimBuffer r)"
  by (simp add: sameFailure_def)

lemma sameFailure_next: "isStopped r \<Longrightarrow> sameFailure r (fst (next_RS v r))"
  by (simp add: next_RS_stopped sameFailure_trim)

lemma sameFailure_error: "isStopped r \<Longrightarrow> sameFailure r (fst (error_RS e r))"
  by (simp add: error_RS_stopped sameFailure_refl)

lemma sameFailure_subscribe: "isStopped r \<Longrightarrow> sameFailure r (fst (subscribe_RS sid r))"
  by (simp add: subscribe_RS_def Let_def sameFailure_trim)

lemma sameFailure_unsubscribe: "isStopped r \<Longrightarrow> sameFailure r (unsubscribe_RS sid r)"
  by (simp add: unsubscribe_RS_def sameFailure_def trimBuffer_def)

lemma failedSame_refl: "isStopped (subject (heap s b)) \<Longrightarrow> failedSame s s b"
  by (simp add: failedSame_def sameFailure_refl)

lemma failedSame_trans: "failedSame s s' b \<Longrightarrow> failedSame s' s'' b \<Longrightarrow> failedSame s s'' b"
  using sameFailure_trans by (fastforce simp: failedSame_def)

lemma failedSame_stopped: "failedSame s s' b \<Longrightarrow> isStopped (subject (heap s' b))"
  by (simp add: failedSame_def sameFailure_def)

lemma failedSame_log:
  "isStopped (subject (heap s b)) \<Longrightarrow> failedSame s (s\<lparr>world := w, trace := tr\<rparr>) b"
  by (simp add: failedSame_def sameFailure_refl)

lemma failedSame_setCacheData:
  "isStopped (subject (heap s b)) \<Longrightarrow> failedSame s (setCacheData a v s) b"
  by (auto simp: failedSame_def setCacheData_shape sameFailure_next sameFailure_refl)

lemma failedSame_subjectError:
  "isStopped (subject (heap s b)) \<Longrightarrow> failedSame s (subjectError a e s) b"
  by (auto simp: failedSame_def subjectError_shape sameFailure_error sameFailure_refl)

lemma failedSame_refreshCacheData:
  assumes "isStopped (subject (heap s b))"
  shows "failedSame s (refreshCacheData d a s) b"
proof (rule refreshCacheData_cases[of d s a])
  fix e w1
  assume p: "dataProvider d (world s) (callContext (heap s a)) (lastArgs (heap s a)) = (Inl e, w1)"
  let ?s1 = "s\<lparr>world := w1,
          trace := trace s @ [ProducerCall (callContext (heap s a)) (lastArgs (heap s a))]\<rparr>"
  have "failedSame s ?s1 b" using assms by (rule failedSame_log)
  moreover have "failedSame ?s1 (subjectError a e ?s1) b"
    using assms by (intro failedSame_subjectError) simp
  ultimately show ?thesis
    unfolding refreshCacheData_producer_fails[OF p] by (rule failedSame_trans)
next
  fix v w1 t w2 e w3
  assume p: "dataProvider d (world s) (callContext (heap s a)) (lastArgs (heap s a)) = (Inr v, w1)"
    "now d w1 = (t, w2)"
    "storeAsync d w2 (key (heap s a)) \<lparr>data = v, maxAgeMS = maxAgeInMS d, createdAt = t\<rparr> = (Inl e, w3)"
  let ?s2 = "s\<lparr>world := w3,
          trace := trace s @ [ProducerCall (callContext (heap s a)) (lastArgs (heap s a)),
             StorageStore (key (heap s a))
               \<lparr>data = v, maxAgeMS = maxAgeInMS d, createdAt = t\<rparr>]\<rparr>"
  have "failedSame s ?s2 b" using assms by (rule failedSame_log)
  moreover have "failedSame ?s2 (subjectError a e ?s2) b"
    using assms by (intro failedSame_subjectError) simp
  ultimately show ?thesis
    unfolding refreshCacheData_store_fails[OF p] by (rule failedSame_trans)
next
  fix v w1 t w2 u w3
  assume p: "dataProvider d (world s) (callContext (heap s a)) (lastArgs (heap s a)) = (Inr v, w1)"
    "now d w1 = (t, w2)"
    "storeAsync d w2 (key (heap s a)) \<lparr>data = v, maxAgeMS = maxAgeInMS d, createdAt = t\<rparr> = (Inr u, w3)"
  let ?s2 = "s\<lparr>world := w3,
          trace := trace s @ [ProducerCall (callContext (heap s a)) (lastArgs (heap s a)),
             StorageStore (key (heap s a))
               \<lparr>data = v, maxAgeMS = maxAgeInMS d, createdAt = t\<rparr>]\<rparr>"
  have "failedSame s ?s2 b" using assms by (rule failedSame_log)
  moreover have "failedSame ?s2 (setCacheData a v ?s2) b"
    using assms by (intro failedSame_setCacheData) simp
  ultimately show ?thesis
    unfolding refreshCacheData_succeeds[OF p] by (rule failedSame_trans)
qed

lemma failedSame_staleness:
  assumes "isStopped (subject (heap s b))"
  shows "failedSame s (snd (refreshCacheIfOutOfDataAsync d k a s)) b"
proof (rule staleness_cases[of d k a s])
  fix w
  assume "snd (refreshCacheIfOutOfDataAsync d k a s) = s\<lparr>world := w, trace := trace s @ [StorageGet k]\<rparr>"
  then show ?thesis using assms by (simp add: failedSame_log)
next
  fix w
  let ?s1 = "s\<lparr>world := w, trace := trace s @ [StorageGet k]\<rparr>"
  assume eq: "snd (refreshCacheIfOutOfDataAsync d k a s) = refreshCacheData d a ?s1"
  have "failedSame s ?s1 b" using assms by (rule failedSame_log)
  moreover have "failedSame ?s1 (refreshCacheData d a ?s1) b"
    using assms by (intro failedSame_refreshCacheData) simp
  ultimately show ?thesis unfolding eq by (rule failedSame_trans)
next
  fix w v
  let ?s1 = "s\<lparr>world := w, trace := trace s @ [StorageGet k]\<rparr>"
  assume eq: "snd (refreshCacheIfOutOfDataAsync d k a s) = setCacheData a v ?s1"
  have "failedSame s ?s1 b" using assms by (rule failedSame_log)
  moreover have "failedSame ?s1 (setCacheData a v ?s1) b"
    using assms by (intro failedSame_setCacheData) simp
  ultimately show ?thesis unfolding eq by (rule failedSame_trans)
qed

lemma failedSame_sweep:
  "isStopped (subject (heap s b)) \<Longrightarrow> failedSame s (removeUnobservedCachesAsync except s) b"
  by (simp add: failedSame_def sweep_fields sameFailure_refl)

lemma failedSame_pipelineSteps:
  assumes "pipelineSteps d A s s'" and "isStopped (subject (heap s b))"
  shows "failedSame s s' b"
  using assms
proof (induction rule: pipelineSteps.induct)
  case stepHere
  then show ?case by (simp add: failedSame_refl)
next
  case stepCall
  note 1 = stepCall.IH[OF stepCall.prems]
  from failedSame_trans[OF 1 failedSame_log[OF failedSame_stopped[OF 1]]] show ?case .
next
  case stepWrite
  note 1 = stepWrite.IH[OF stepWrite.prems]
  from failedSame_trans[OF 1 failedSame_log[OF failedSame_stopped[OF 1]]] show ?case .
next
  case stepFail
  note 1 = stepFail.IH[OF stepFail.prems]
  from failedSame_trans[OF 1 failedSame_subjectError[OF failedSame_stopped[OF 1]]] show ?case .
next
  case stepPublish
  note 1 = stepPublish.IH[OF stepPublish.prems]
  from failedSame_trans[OF 1 failedSame_setCacheData[OF failedSame_stopped[OF 1]]] show ?case .
qed

lemma failedSame_invalidate:
  assumes "isStopped (subject (heap s b))"
  shows "failedSame s (snd (invalidateAndUpdateAsync d cacheKey s)) b"
proof -
  let ?s1 = "removeUnobservedCachesAsync None s"
  let ?ks = "allToInvalidateAndUpdate d cacheKey ?s1"
  have f: "\<And>w. failedSame s (?s1\<lparr>world := w, trace := trace s @ [StorageRemove ?ks]\<rparr>) b"
    using assms by (simp add: failedSame_def sweep_fields sameFailure_refl)
  show ?thesis
  proof (rule invalidate_cases[of d cacheKey s])
    fix w
    assume "snd (invalidateAndUpdateAsync d cacheKey s) =
         (removeUnobservedCachesAsync None s)\<lparr>world := w,
            trace := trace s @ [StorageRemove
              (allToInvalidateAndUpdate d cacheKey (removeUnobservedCachesAsync None s))]\<rparr>"
    with f show ?thesis by simp
  next
    fix w
    assume st: "pipelineSteps d (snd ` set (cacheStore (removeUnobservedCachesAsync None s)))
         ((removeUnobservedCachesAsync None s)\<lparr>world := w,
            trace := trace s @ [StorageRemove
              (allToInvalidateAndUpdate d cacheKey (removeUnobservedCachesAsync None s))]\<rparr>)
         (snd (invalidateAndUpdateAsync d cacheKey s))"
    from failedSame_trans[OF f failedSame_pipelineSteps[OF st failedSame_stopped[OF f]]]
    show ?thesis .
  qed
qed

lemma failedSame_getAndEnsureCache:
  "b < nextAddr s \<Longrightarrow> isStopped (subject (heap s b)) \<Longrightarrow>
   failedSame s (snd (getAndEnsureCache k args ctx s)) b"
  by (cases "map_of (cacheStore s) k")
     (simp_all add: getAndEnsureCache_absent getAndEnsureCache_present failedSame_def
        sameFailure_refl)

lemma failedSame_getCache_sync:
  assumes "b < nextAddr s" and "isStopped (subject (heap s b))"
  shows "failedSame s (snd (getCache_sync k args ctx s)) b"
proof -
  have 1: "failedSame s (snd (getAndEnsureCache k args ctx s)) b"
    using assms by (rule failedSame_getAndEnsureCache)
  from failedSame_trans[OF 1 failedSame_sweep[OF failedSame_stopped[OF 1]]]
  show ?thesis by (simp add: getCache_sync_def split_beta)
qed

lemma failedSame_getCache:
  assumes "b < nextAddr s" and "isStopped (subject (heap s b))"
  shows "failedSame s (snd (getCache d k args ctx s)) b"
proof -
  have 1: "failedSame s (snd (getCache_sync k args ctx s)) b"
    using assms by (rule failedSame_getCache_sync)
  from failedSame_trans[OF 1 failedSame_staleness[OF failedSame_stopped[OF 1]]]
  show ?thesis by (simp add: getCache_def split_beta)
qed

lemma failedSame_subscribe:
  "isStopped (subject (heap s b)) \<Longrightarrow> failedSame s (snd (subscribe a s)) b"
  by (auto simp: failedSame_def subscribe_shape sameFailure_subscribe sameFailure_refl)

lemma failedSame_unsubscribe:
  "isStopped (subject (heap s b)) \<Longrightarrow> failedSame s (unsubscribe a sid s) b"
  by (auto simp: failedSame_def unsubscribe_def Let_def sameFailure_unsubscribe sameFailure_refl)

lemma failedSame_apply_op:
  assumes "b < nextAddr s" and "isStopped (subject (heap s b))"
  shows "failedSame s (apply_op d s op) b"
  using assms
  by (cases op)
     (simp_all add: failedSame_getCache failedSame_getCache_sync failedSame_staleness
        failedSame_invalidate failedSame_subscribe failedSame_unsubscribe failedSame_refl)

lemma failedSame_run:
  "b < nextAddr s \<Longrightarrow> isStopped (subject (heap s b)) \<Longrightarrow> failedSame s (run d ops s) b"
proof (induction ops arbitrary: s)
  case Nil
  then show ?case by (simp add: run_def failedSame_refl)
next
  case (Cons op ops)
  have 1: "failedSame s (apply_op d s op) b"
    using Cons.prems by (rule failedSame_apply_op)
  then have "b < nextAddr (apply_op d s op)" "isStopped (subject (heap (apply_op d s op) b))"
    using Cons.prems(1) by (simp_all add: failedSame_def sameFailure_def)
  from Cons.IH[OF this] have "failedSame (apply_op d s op) (run d ops (apply_op d s op)) b" .
  from failedSame_trans[OF 1 this] show ?case by (simp add: run_def)
qed

text \<open>
  Claim C9, as the code has it. Calling \<open>error(e)\<close> on a live subject stops it with the
  error \<open>e\<close> and leaves its buffer as it is. From then on, whatever operations follow, a
  subscription to that entry receives first the replay of the last value published
  before the failure, if there was one, and then the error \<open>e\<close>; it receives nothing else
  and is not registered as an observer.
\<close>

theorem failed_channel_replays_then_errors:
  "(\<not> isStopped (subject (heap s0 a)) \<longrightarrow>
      isStopped (subject (heap (subjectError a e s0) a)) \<and>
      thrownError (subject (heap (subjectError a e s0) a)) = Some e \<and>
      buffer (subject (heap (subjectError a e s0) a)) = buffer (subject (heap s0 a)))
   \<and> (a < nextAddr s \<and> isStopped (subject (heap s a)) \<and>
       thrownError (subject (heap s a)) = Some e \<longrightarrow>
      newEvents (run d ops s) (snd (subscribe a (run d ops s))) =
        map (\<lambda>v. Deliver (nextSubscriber (run d ops s)) (NextN v))
          (if buffer (subject (heap s a)) = [] then [] else [last (buffer (subject (heap s a)))])
        @ [Deliver (nextSubscriber (run d ops s)) (ErrorN e)]
      \<and> observers (subject (heap (snd (subscribe a (run d ops s))) a)) =
          observers (subject (heap (run d ops s) a)))"
proof (intro conjI impI)
  assume "\<not> isStopped (subject (heap s0 a))"
  then show "isStopped (subject (heap (subjectError a e s0) a))"
    "thrownError (subject (heap (subjectError a e s0) a)) = Some e"
    "buffer (subject (heap (subjectError a e s0) a)) = buffer (subject (heap s0 a))"
    by (simp_all add: subjectError_effect)
next
  assume h: "a < nextAddr s \<and> isStopped (subject (heap s a)) \<and>
       thrownError (subject (heap s a)) = Some e"
  let ?s' = "run d ops s"
  let ?r' = "subject (heap ?s' a)"
  from h have "failedSame s ?s' a" by (simp add: failedSame_run)
  then have te: "thrownError ?r' = Some e"
    and bf: "buffer (trimBuffer ?r') = buffer (trimBuffer (subject (heap s a)))"
    using h by (simp_all add: failedSame_def sameFailure_def)
  have bf2: "buffer (trimBuffer ?r') =
      (if buffer (subject (heap s a)) = [] then [] else [last (buffer (subject (heap s a)))])"
    unfolding bf by (rule trimBuffer_buffer)
  have sub: "subscribe_RS (nextSubscriber ?s') ?r' =
     (trimBuffer ?r', map (\<lambda>v. (nextSubscriber ?s', NextN v)) (buffer (trimBuffer ?r'))
        @ [(nextSubscriber ?s', ErrorN e)])"
    by (rule subscribe_RS_failed[OF te])
  show "newEvents ?s' (snd (subscribe a ?s')) =
        map (\<lambda>v. Deliver (nextSubscriber ?s') (NextN v))
          (if buffer (subject (heap s a)) = [] then [] else [last (buffer (subject (heap s a)))])
        @ [Deliver (nextSubscriber ?s') (ErrorN e)]"
    by (simp add: subscribe_shape newEvents_def sub bf2)
  show "observers (subject (heap (snd (subscribe a ?s')) a)) = observers ?r'"
    by (simp add: subscribe_shape sub)
qed

lemma exServed_eq:
  "run exDeps [Read ''A'' [1] ''svc'', Subscribe 0] exManager =
     \<lparr>cacheStore = [(''A'', 0)],
      heap = (\<lambda>_. exCache [])(0 := \<lparr>key = ''A'', lastArgs = [1], callContext = ''svc'',
                 subject = \<lparr>buffer = [7], isStopped = False, thrownError = None, observers = [0]\<rparr>,
                 initialized = True\<rparr>),
      nextAddr = 1, nextSubscriber = 1,
      world = exWorld\<lparr>produced := 8,
                stored := [(''A'', \<lparr>data = 7, maxAgeMS = 1000, createdAt = 0\<rparr>)]\<rparr>,
      trace = [StorageGet ''A'', ProducerCall ''svc'' [1],
               StorageStore ''A'' \<lparr>data = 7, maxAgeMS = 1000, createdAt = 0\<rparr>, SubjectNext 0 7,
               Deliver 0 (NextN 7)]\<rparr>"
  by (simp add: run_def getCache_def getCache_sync_def getAndEnsureCache_def subscribe_def
      removeUnobservedCachesAsync_def refreshCacheIfOutOfDataAsync_def refreshCacheData_def
      setCacheData_def exManager_def new_LocalCacheManager_def exDeps_def exWorld_def exCache_def
      observed_def new_ReplaySubject_def next_RS_def trimBuffer_def store_delete_def Let_def
      subscribe_RS_def hasError_def)

lemma exFailed_eq:
  "exFailed =
     \<lparr>cacheStore = [(''A'', 0)],
      heap = (\<lambda>_. exCache [])(0 := \<lparr>key = ''A'', lastArgs = [1], callContext = ''svc'',
                 subject = \<lparr>buffer = [7], isStopped = True, thrownError = Some ''producer failed'',
                            observers = []\<rparr>,
                 initialized = True\<rparr>),
      nextAddr = 1, nextSubscriber = 1,
      world = exWorld\<lparr>producerFails := True\<rparr>,
      trace = [StorageGet ''A'', ProducerCall ''svc'' [1],
               StorageStore ''A'' \<lparr>data = 7, maxAgeMS = 1000, createdAt = 0\<rparr>, SubjectNext 0 7,
               Deliver 0 (NextN 7), StorageRemove [''A''], ProducerCall ''svc'' [1],
               SubjectError 0 ''producer failed'', Deliver 0 (ErrorN ''producer failed'')]\<rparr>"
  unfolding exFailed_def exServed_eq
  by (simp add: run_def invalidateAndUpdateAsync_def allToInvalidateAndUpdate_def
      startIfPresent_def startRefresh_def resumeAll_def resumeAt_def
      removeUnobservedCachesAsync_def subjectError_def error_RS_def exDeps_def exWorld_def
      exCache_def observed_def store_delete_def Let_def)

theorem failed_channel_replays_then_errors_witness:
  "thrownError (subject (heap (subjectError 0 ''down''
       (exWith (new_ReplaySubject\<lparr>observers := [3]\<rparr>) False exWorld)) 0)) = Some ''down''
   \<and> newEvents (run exDeps [Read ''A'' [2] ''x''] exFailed)
        (snd (subscribe 0 (run exDeps [Read ''A'' [2] ''x''] exFailed))) =
       [Deliver (nextSubscriber (run exDeps [Read ''A'' [2] ''x''] exFailed)) (NextN 7),
        Deliver (nextSubscriber (run exDeps [Read ''A'' [2] ''x''] exFailed))
          (ErrorN ''producer failed'')]"
proof -
  let ?s0 = "exWith (new_ReplaySubject\<lparr>observers := [3]\<rparr>) False exWorld"
  have l: "\<not> isStopped (subject (heap ?s0 0))"
    by (simp add: exWith_def exCache_def new_ReplaySubject_def)
  have h: "0 < nextAddr exFailed \<and> isStopped (subject (heap exFailed 0)) \<and>
       thrownError (subject (heap exFailed 0)) = Some ''producer failed''"
    unfolding exFailed_eq by simp
  have b: "buffer (subject (heap exFailed 0)) = [7]"
    unfolding exFailed_eq by simp
  have 1: "thrownError (subject (heap (subjectError 0 ''down'' ?s0) 0)) = Some ''down''"
    using failed_channel_replays_then_errors[of ?s0 0 "''down''" exFailed exDeps
      "[Read ''A'' [2] ''x'']"] l by blast
  have 2: "newEvents (run exDeps [Read ''A'' [2] ''x''] exFailed)
        (snd (subscribe 0 (run exDeps [Read ''A'' [2] ''x''] exFailed))) =
        map (\<lambda>v. Deliver (nextSubscriber (run exDeps [Read ''A'' [2] ''x''] exFailed)) (NextN v))
          (if buffer (subject (heap exFailed 0)) = [] then []
           else [last (buffer (subject (heap exFailed 0)))])
        @ [Deliver (nextSubscriber (run exDeps [Read ''A'' [2] ''x''] exFailed))
             (ErrorN ''producer failed'')]"
    using failed_channel_replays_then_errors[of ?s0 0 "''producer failed''" exFailed
      exDeps "[Read ''A'' [2] ''x'']"] h by blast
  from 1 2 show ?thesis by (simp add: b)
qed

text \<open>
  The claim as the specification words it says that a subscription made after the failure
  receives no values. Here the entry for \<open>A\<close> published 7, the invalidation's refresh then
  failed, and the next subscriber receives 7 before the error.
\<close>

theorem failed_channel_no_values_counterexample:
  "isStopped (subject (heap exFailed 0))
   \<and> thrownError (subject (heap exFailed 0)) = Some ''producer failed''
   \<and> newEvents exFailed (snd (subscribe 0 exFailed)) =
       [Deliver 1 (NextN 7), Deliver 1 (ErrorN ''producer failed'')]"
  unfolding exFailed_eq
  by (simp add: subscribe_def subscribe_RS_def hasError_def trimBuffer_def newEvents_def Let_def)

end
